theory Spec2Isabelle
  imports Complex_Main "HOL-Library.Word" "HOL-Library.Multiset" "HOL-Library.Log_Nat"
begin

section \<open>FailureDetector (advanced\_distributed.cpp)\<close>

text \<open>
  A \<^verbatim>\<open>steady_clock::time_point\<close> is an integer count of clock ticks (nanoseconds);
  \<^verbatim>\<open>heartbeat_timeout_\<close> is a count of milliseconds. \<^verbatim>\<open>failure_count\<close> is a \<^verbatim>\<open>size_t\<close>, a
  64-bit word. The table \<^verbatim>\<open>nodes_\<close> is a map from addresses to entries; a detection tick
  visits every entry, and the visit of one entry touches no other (the iteration order only
  orders the callbacks of one tick). The callback \<^verbatim>\<open>on_failure_\<close> is an external observer:
  the model keeps whether one is registered and how often it has been invoked with each
  address. The clock is read by the caller of the model: \<^verbatim>\<open>add_node\<close> and \<^verbatim>\<open>heartbeat\<close> take
  the reading as an argument, a tick takes the reading made at each entry. Member names are
  written without their trailing underscore.
\<close>

record NodeStatus =
  address :: string
  last_heartbeat :: int
  is_alive :: bool
  failure_count :: "64 word"

record FailureDetector =
  nodes :: "string \<rightharpoonup> NodeStatus"
  heartbeat_timeout :: int
  on_failure :: bool
  on_failure_calls :: "string \<Rightarrow> nat"

definition FailureDetector_init :: "int \<Rightarrow> FailureDetector" where
  "FailureDetector_init timeout =
     \<lparr>nodes = Map.empty, heartbeat_timeout = timeout, on_failure = False,
      on_failure_calls = (\<lambda>_. 0)\<rparr>"

definition add_node :: "string \<Rightarrow> int \<Rightarrow> FailureDetector \<Rightarrow> FailureDetector" where
  "add_node addr now d =
     d\<lparr>nodes := (nodes d)(addr \<mapsto>
          \<lparr>address = addr, last_heartbeat = now, is_alive = True, failure_count = 0\<rparr>)\<rparr>"

definition heartbeat :: "string \<Rightarrow> int \<Rightarrow> FailureDetector \<Rightarrow> FailureDetector" where
  "heartbeat addr now d =
     (case nodes d addr of
        None \<Rightarrow> d
      | Some status \<Rightarrow>
          d\<lparr>nodes := (nodes d)(addr \<mapsto>
               status\<lparr>last_heartbeat := now, is_alive := True, failure_count := 0\<rparr>)\<rparr>)"

definition set_failure_callback :: "FailureDetector \<Rightarrow> FailureDetector" where
  "set_failure_callback d = d\<lparr>on_failure := True\<rparr>"

definition duration_cast_ms :: "int \<Rightarrow> int" where
  \<comment> \<open>\<^verbatim>\<open>duration_cast<milliseconds>\<close> of a nanosecond count: truncation towards zero.\<close>
  "duration_cast_ms d = (if 0 \<le> d then d div 1000000 else - ((- d) div 1000000))"

definition detect_node :: "int \<Rightarrow> bool \<Rightarrow> int \<Rightarrow> NodeStatus \<Rightarrow> NodeStatus \<times> bool" where
  \<comment> \<open>The body of the \<^verbatim>\<open>for\<close> loop of \<^verbatim>\<open>detect_loop\<close> on one entry: the entry afterwards,
      and whether \<^verbatim>\<open>on_failure_(address)\<close> was called.\<close>
  "detect_node timeout callback now status =
     (let elapsed = duration_cast_ms (now - last_heartbeat status) in
      if elapsed > timeout then
        if is_alive status then
          let status' = status\<lparr>is_alive := False, failure_count := failure_count status + 1\<rparr>
          in (status', 3 \<le> failure_count status' \<and> callback)
        else (status, False)
      else (status, False))"

definition detect_tick :: "(string \<Rightarrow> int) \<Rightarrow> FailureDetector \<Rightarrow> FailureDetector" where
  \<comment> \<open>One iteration of the \<^verbatim>\<open>while\<close> loop of \<^verbatim>\<open>detect_loop\<close>: every entry of the table is
      visited once; \<open>now a\<close> is the clock reading taken while visiting the entry of \<open>a\<close>.\<close>
  "detect_tick now d =
     (let visit = (\<lambda>a status. detect_node (heartbeat_timeout d) (on_failure d) (now a) status)
      in d\<lparr>nodes := (\<lambda>a. map_option (\<lambda>status. fst (visit a status)) (nodes d a)),
           on_failure_calls := (\<lambda>a. case nodes d a of
                None \<Rightarrow> on_failure_calls d a
              | Some status \<Rightarrow>
                  if snd (visit a status) then Suc (on_failure_calls d a)
                  else on_failure_calls d a)\<rparr>)"

datatype fd_event =
    AddNode string int
  | Heartbeat string int
  | SetCallback
  | Tick "string \<Rightarrow> int"

fun fd_step :: "FailureDetector \<Rightarrow> fd_event \<Rightarrow> FailureDetector" where
  "fd_step d (AddNode addr now) = add_node addr now d"
| "fd_step d (Heartbeat addr now) = heartbeat addr now d"
| "fd_step d SetCallback = set_failure_callback d"
| "fd_step d (Tick now) = detect_tick now d"

definition fd_run :: "fd_event list \<Rightarrow> FailureDetector \<Rightarrow> FailureDetector" where
  "fd_run evs d = foldl fd_step d evs"

definition fd_inv :: "FailureDetector \<Rightarrow> bool" where
  "fd_inv d \<longleftrightarrow>
     (\<forall>a status. nodes d a = Some status \<longrightarrow>
        (is_alive status \<longrightarrow> failure_count status = 0) \<and> failure_count status \<le> 1) \<and>
     (\<forall>a. on_failure_calls d a = 0)"

lemma fd_inv_init: "fd_inv (FailureDetector_init timeout)"
  by (simp add: fd_inv_def FailureDetector_init_def)

lemma fd_inv_add_node: "fd_inv d \<Longrightarrow> fd_inv (add_node addr now d)"
  by (simp add: fd_inv_def add_node_def)

lemma fd_inv_heartbeat: "fd_inv d \<Longrightarrow> fd_inv (heartbeat addr now d)"
  by (auto simp: fd_inv_def heartbeat_def split: option.splits)

lemma fd_inv_set_failure_callback: "fd_inv d \<Longrightarrow> fd_inv (set_failure_callback d)"
  by (simp add: fd_inv_def set_failure_callback_def)

lemma detect_node_inv:
  assumes "(is_alive status \<longrightarrow> failure_count status = 0) \<and> failure_count status \<le> 1"
    and "detect_node timeout callback now status = (status', called)"
  shows "(is_alive status' \<longrightarrow> failure_count status' = 0) \<and> failure_count status' \<le> 1
           \<and> \<not> called"
  using assms by (auto simp: detect_node_def Let_def word_le_nat_alt split: if_splits)

lemma fd_inv_detect_tick:
  assumes "fd_inv d"
  shows "fd_inv (detect_tick now d)"
proof -
  have node: "(is_alive s' \<longrightarrow> failure_count s' = 0) \<and> failure_count s' \<le> 1"
    if "nodes (detect_tick now d) a = Some s'" for a s'
  proof -
    from that obtain s where s: "nodes d a = Some s"
      and s': "s' = fst (detect_node (heartbeat_timeout d) (on_failure d) (now a) s)"
      by (auto simp: detect_tick_def Let_def)
    from assms s have "(is_alive s \<longrightarrow> failure_count s = 0) \<and> failure_count s \<le> 1"
      by (simp add: fd_inv_def)
    then show ?thesis
      using detect_node_inv [of s "heartbeat_timeout d" "on_failure d" "now a" s'
          "snd (detect_node (heartbeat_timeout d) (on_failure d) (now a) s)"] s'
      by simp
  qed
  have calls: "on_failure_calls (detect_tick now d) a = 0" for a
  proof (cases "nodes d a")
    case None
    with assms show ?thesis by (simp add: detect_tick_def Let_def fd_inv_def)
  next
    case (Some s)
    from assms Some have "(is_alive s \<longrightarrow> failure_count s = 0) \<and> failure_count s \<le> 1"
      by (simp add: fd_inv_def)
    then have "\<not> snd (detect_node (heartbeat_timeout d) (on_failure d) (now a) s)"
      using detect_node_inv [of s "heartbeat_timeout d" "on_failure d" "now a"
          "fst (detect_node (heartbeat_timeout d) (on_failure d) (now a) s)"
          "snd (detect_node (heartbeat_timeout d) (on_failure d) (now a) s)"]
      by simp
    with assms Some show ?thesis by (simp add: detect_tick_def Let_def fd_inv_def)
  qed
  from node calls show ?thesis unfolding fd_inv_def by blast
qed

lemma fd_inv_step: "fd_inv d \<Longrightarrow> fd_inv (fd_step d ev)"
  by (cases ev)
    (simp_all add: fd_inv_add_node fd_inv_heartbeat fd_inv_set_failure_callback
      fd_inv_detect_tick)

lemma fd_inv_foldl: "fd_inv d \<Longrightarrow> fd_inv (foldl fd_step d evs)"
  by (induction evs arbitrary: d) (simp_all add: fd_inv_step)

lemma fd_inv_run: "fd_inv (fd_run evs (FailureDetector_init timeout))"
  by (simp add: fd_run_def fd_inv_foldl fd_inv_init)

lemma on_failure_never_invoked:
  "on_failure_calls (fd_run evs (FailureDetector_init timeout)) a = 0"
  using fd_inv_run [of evs timeout] by (simp add: fd_inv_def)

text \<open>
  C10. In every state the detector reaches from its construction by any sequence of
  \<^verbatim>\<open>add_node\<close>, \<^verbatim>\<open>heartbeat\<close>, \<^verbatim>\<open>set_failure_callback\<close> and detection ticks (at any
  clock readings), every registered node that is alive has \<^verbatim>\<open>failure_count = 0\<close>, and no
  registered node has a \<^verbatim>\<open>failure_count\<close> above 1.
\<close>

theorem failure_count_at_most_one:
  "nodes (fd_run evs (FailureDetector_init timeout)) a = Some status \<Longrightarrow>
     (is_alive status \<longrightarrow> failure_count status = 0) \<and> failure_count status \<le> 1"
  using fd_inv_run [of evs timeout] by (simp add: fd_inv_def)

theorem failure_count_at_most_one_witness:
  "nodes (fd_run [AddNode ''node2:5000'' 0, Tick (\<lambda>_. 2000000000)] (FailureDetector_init 1000))
       ''node2:5000''
     = Some \<lparr>address = ''node2:5000'', last_heartbeat = 0, is_alive = False, failure_count = 1\<rparr>
   \<and> failure_count \<lparr>address = ''node2:5000'', last_heartbeat = 0, is_alive = False,
          failure_count = 1\<rparr> \<le> 1"
proof -
  have run: "nodes (fd_run [AddNode ''node2:5000'' 0, Tick (\<lambda>_. 2000000000)]
      (FailureDetector_init 1000)) ''node2:5000''
     = Some \<lparr>address = ''node2:5000'', last_heartbeat = 0, is_alive = False, failure_count = 1\<rparr>"
    by (simp add: fd_run_def FailureDetector_init_def add_node_def detect_tick_def
        detect_node_def duration_cast_ms_def Let_def)
  from failure_count_at_most_one [OF run] run show ?thesis by simp
qed

text \<open>
  C1. A node is registered with a one-second timeout and a failure callback, sends no
  heartbeat, and three consecutive detection ticks each find it past the timeout. The claim
  expects the confirmed-failure callback to have fired exactly once; in the code the first
  tick marks the node dead with \<^verbatim>\<open>failure_count = 1\<close>, the later ticks skip it because it is
  no longer alive, and the callback has not fired at all.
\<close>

theorem confirmed_failure_never_fires:
  "(let d = fd_run [SetCallback, AddNode ''node2:5000'' 0,
                    Tick (\<lambda>_. 2000000000), Tick (\<lambda>_. 3000000000), Tick (\<lambda>_. 4000000000)]
               (FailureDetector_init 1000)
    in on_failure d \<and> on_failure_calls d ''node2:5000'' = 0 \<and>
       nodes d ''node2:5000''
         = Some \<lparr>address = ''node2:5000'', last_heartbeat = 0, is_alive = False,
                  failure_count = 1\<rparr>)"
  by (simp add: fd_run_def FailureDetector_init_def add_node_def detect_tick_def
      detect_node_def duration_cast_ms_def set_failure_callback_def Let_def word_le_nat_alt)

section \<open>Failures of the C++ code as values\<close>

text \<open>
  Where the source divides by zero, indexes a vector out of range, builds an iterator
  past the end or reads a variable through a reference after the variable's lifetime has
  ended, its behaviour is undefined; where it throws, the call has no result. Each is a
  value of \<open>error\<close>, and a function that can fail returns \<open>error + 'a\<close>.
\<close>

datatype error = division_by_zero | out_of_range | invalid_iterator | dangling_reference
  | runtime_error string

section \<open>RangeSharding (distributed\_examples.cpp)\<close>

text \<open>
  \<^verbatim>\<open>size_t\<close> values are unsigned 64-bit integers, modelled as natural numbers; \<open>u64\<close> is
  the reduction that the products of the constructor undergo. The key type
  \<^verbatim>\<open>vector_key_t\<close> is declared by the engine's headers, outside these files (every index
  of the examples is an \<^verbatim>\<open>index_dense_gt<float, std::uint32_t>\<close>): it is an unsigned integer
  type of \<open>key_bits\<close> bits, at most 64, and \<open>key_bits\<close> is a parameter of the model.
  \<open>vector_key_t key_bits\<close> is the conversion to that type, which the constructor applies
  where it initialises a \<^verbatim>\<open>vector_key_t\<close> variable from a \<^verbatim>\<open>size_t\<close> value.
\<close>

definition u64 :: "nat \<Rightarrow> nat" where
  "u64 x = x mod 2 ^ 64"

definition vector_key_t :: "nat \<Rightarrow> nat \<Rightarrow> nat" where
  "vector_key_t key_bits x = x mod 2 ^ key_bits"

record Range =
  min_key :: nat
  max_key :: nat
  range_shard_id :: nat

definition RangeSharding_init :: "nat \<Rightarrow> nat \<Rightarrow> nat \<Rightarrow> error + Range list" where
  "RangeSharding_init key_bits num_shards total_keys =
     (if num_shards = 0 then Inl division_by_zero
      else
        let keys_per_shard = vector_key_t key_bits (total_keys div num_shards)
        in Inr (map (\<lambda>i. \<lparr>min_key = vector_key_t key_bits (u64 (i * keys_per_shard)),
                           max_key = vector_key_t key_bits
                                       (if i = num_shards - 1 then total_keys
                                        else u64 ((i + 1) * keys_per_shard)),
                           range_shard_id = i\<rparr>) [0..<num_shards]))"

fun find_range :: "Range list \<Rightarrow> nat \<Rightarrow> nat option" where
  "find_range [] key = None"
| "find_range (r # ranges) key =
     (if key \<ge> min_key r \<and> key < max_key r then Some (range_shard_id r)
      else find_range ranges key)"

definition RangeSharding_shard_id :: "Range list \<Rightarrow> nat \<Rightarrow> error + nat" where
  "RangeSharding_shard_id ranges key =
     (case find_range ranges key of
        Some s \<Rightarrow> Inr s
      | None \<Rightarrow> if ranges = [] then Inl out_of_range else Inr (range_shard_id (last ranges)))"

definition in_range :: "Range \<Rightarrow> nat \<Rightarrow> bool" where
  "in_range r key \<longleftrightarrow> min_key r \<le> key \<and> key < max_key r"

lemma find_range_None: "find_range rs key = None \<longleftrightarrow> (\<forall>r \<in> set rs. \<not> in_range r key)"
  by (induction rs) (auto simp: in_range_def)

lemma find_range_Some:
  "find_range rs key = Some s \<longleftrightarrow>
     (\<exists>i < length rs. in_range (rs ! i) key \<and> (\<forall>j < i. \<not> in_range (rs ! j) key)
        \<and> s = range_shard_id (rs ! i))"
proof (induction rs)
  case Nil
  then show ?case by simp
next
  case (Cons r rs)
  show ?case
  proof (cases "in_range r key")
    case True
    then have "find_range (r # rs) key = Some (range_shard_id r)"
      by (simp add: in_range_def)
    moreover have "(\<exists>i < length (r # rs). in_range ((r # rs) ! i) key
        \<and> (\<forall>j < i. \<not> in_range ((r # rs) ! j) key) \<and> s = range_shard_id ((r # rs) ! i))
        \<longleftrightarrow> s = range_shard_id r"
    proof
      assume "\<exists>i < length (r # rs). in_range ((r # rs) ! i) key
        \<and> (\<forall>j < i. \<not> in_range ((r # rs) ! j) key) \<and> s = range_shard_id ((r # rs) ! i)"
      then obtain i where i: "in_range ((r # rs) ! i) key"
        "\<forall>j < i. \<not> in_range ((r # rs) ! j) key" "s = range_shard_id ((r # rs) ! i)"
        by blast
      have "i = 0"
      proof (rule ccontr)
        assume "i \<noteq> 0"
        then have "0 < i" by simp
        with i(2) have "\<not> in_range ((r # rs) ! 0) key" by blast
        with True show False by simp
      qed
      with i(3) show "s = range_shard_id r" by simp
    next
      assume "s = range_shard_id r"
      with True show "\<exists>i < length (r # rs). in_range ((r # rs) ! i) key
        \<and> (\<forall>j < i. \<not> in_range ((r # rs) ! j) key) \<and> s = range_shard_id ((r # rs) ! i)"
        by (intro exI [of _ 0]) simp
    qed
    ultimately show ?thesis by auto
  next
    case False
    then have eq: "find_range (r # rs) key = find_range rs key"
      by (auto simp: in_range_def)
    have "(\<exists>i < length (r # rs). in_range ((r # rs) ! i) key
        \<and> (\<forall>j < i. \<not> in_range ((r # rs) ! j) key) \<and> s = range_shard_id ((r # rs) ! i))
      \<longleftrightarrow> (\<exists>i < length rs. in_range (rs ! i) key
        \<and> (\<forall>j < i. \<not> in_range (rs ! j) key) \<and> s = range_shard_id (rs ! i))"
      (is "?L \<longleftrightarrow> ?R")
    proof
      assume ?L
      then obtain i where i: "i < length (r # rs)" "in_range ((r # rs) ! i) key"
        "\<forall>j < i. \<not> in_range ((r # rs) ! j) key" "s = range_shard_id ((r # rs) ! i)"
        by blast
      from i(2) False obtain i' where i': "i = Suc i'" by (cases i) auto
      have "\<forall>j < i'. \<not> in_range (rs ! j) key"
      proof (intro allI impI)
        fix j assume "j < i'"
        then have "Suc j < i" using i' by simp
        with i(3) have "\<not> in_range ((r # rs) ! Suc j) key" by blast
        then show "\<not> in_range (rs ! j) key" by simp
      qed
      with i i' show ?R by (intro exI [of _ i']) simp
    next
      assume ?R
      then obtain i where i: "i < length rs" "in_range (rs ! i) key"
        "\<forall>j < i. \<not> in_range (rs ! j) key" "s = range_shard_id (rs ! i)"
        by blast
      have "\<forall>j < Suc i. \<not> in_range ((r # rs) ! j) key"
      proof (intro allI impI)
        fix j assume "j < Suc i"
        show "\<not> in_range ((r # rs) ! j) key"
        proof (cases j)
          case 0
          with False show ?thesis by simp
        next
          case (Suc j')
          with \<open>j < Suc i\<close> i(3) show ?thesis by simp
        qed
      qed
      with i show ?L by (intro exI [of _ "Suc i"]) simp
    qed
    with eq Cons.IH show ?thesis by simp
  qed
qed

definition range_of :: "nat \<Rightarrow> nat \<Rightarrow> nat \<Rightarrow> Range" where
  \<comment> \<open>The interval the constructor gives shard \<open>i\<close>, without the reductions.\<close>
  "range_of N M i =
     \<lparr>min_key = i * (M div N), max_key = (if i = N - 1 then M else (i + 1) * (M div N)),
      range_shard_id = i\<rparr>"

lemma mult_div_le_total: "i \<le> N \<Longrightarrow> i * (M div N) \<le> (M::nat)"
proof -
  assume "i \<le> N"
  then have "i * (M div N) \<le> N * (M div N)" by (rule mult_le_mono1)
  also have "\<dots> \<le> M" by simp
  finally show ?thesis .
qed

lemma RangeSharding_init_eq:
  assumes "1 \<le> N" "M < 2 ^ 64" "M < 2 ^ W"
  shows "RangeSharding_init W N M = Inr (map (range_of N M) [0..<N])"
proof -
  have fits: "vector_key_t W x = x" if "x \<le> M" for x
    using that assms(3) by (simp add: vector_key_t_def)
  have "M div N \<le> M" by simp
  then have per: "vector_key_t W (M div N) = M div N" by (rule fits)
  have no_wrap: "vector_key_t W (u64 (i * (M div N))) = i * (M div N)" if "i \<le> N" for i
  proof -
    from mult_div_le_total [OF that, of M] have le: "i * (M div N) \<le> M" .
    with assms(2) have "u64 (i * (M div N)) = i * (M div N)" by (simp add: u64_def)
    with fits [OF le] show ?thesis by simp
  qed
  have "\<lparr>min_key = vector_key_t W (u64 (i * (M div N))),
        max_key = vector_key_t W (if i = N - 1 then M else u64 ((i + 1) * (M div N))),
        range_shard_id = i\<rparr> = range_of N M i" if "i < N" for i
  proof -
    from that have "i \<le> N" "i + 1 \<le> N" by simp_all
    from no_wrap [OF this(1)] no_wrap [OF this(2)] fits [of M] show ?thesis
      unfolding range_of_def by (cases "i = N - 1") simp_all
  qed
  then have "map (\<lambda>i. \<lparr>min_key = vector_key_t W (u64 (i * (M div N))),
        max_key = vector_key_t W (if i = N - 1 then M else u64 ((i + 1) * (M div N))),
        range_shard_id = i\<rparr>) [0..<N] = map (range_of N M) [0..<N]"
    by (intro map_cong) simp_all
  then show ?thesis
    using assms(1) per by (simp add: RangeSharding_init_def Let_def)
qed

lemma range_of_disjoint:
  assumes "i < j" "j < N" "in_range (range_of N M i) key"
  shows "\<not> in_range (range_of N M j) key"
proof
  assume j: "in_range (range_of N M j) key"
  from assms(1,2) have "i \<noteq> N - 1" by simp
  with assms(3) have "key < (i + 1) * (M div N)"
    by (simp add: in_range_def range_of_def)
  also have "\<dots> \<le> j * (M div N)"
    using assms(1) by (intro mult_le_mono1) simp
  also have "\<dots> \<le> key"
    using j by (simp add: in_range_def range_of_def)
  finally show False by simp
qed

lemma range_of_cover:
  assumes "1 \<le> N" "key < M"
  shows "\<exists>i < N. in_range (range_of N M i) key"
proof (cases "M div N = 0 \<or> N - 1 \<le> key div (M div N)")
  case True
  have "(N - 1) * (M div N) \<le> key"
  proof (cases "M div N = 0")
    case True
    then show ?thesis by simp
  next
    case False
    with True have "N - 1 \<le> key div (M div N)" by simp
    then have "(N - 1) * (M div N) \<le> key div (M div N) * (M div N)"
      by (rule mult_le_mono1)
    also have "\<dots> \<le> key" by simp
    finally show ?thesis .
  qed
  with assms have "in_range (range_of N M (N - 1)) key"
    by (simp add: in_range_def range_of_def)
  with assms(1) show ?thesis by (intro exI [of _ "N - 1"]) simp
next
  case False
  define i where "i = key div (M div N)"
  from False have pos: "0 < M div N" and lt: "i < N - 1" by (simp_all add: i_def)
  have "i * (M div N) \<le> key" by (simp add: i_def)
  moreover have "key < (i + 1) * (M div N)"
    using pos by (simp add: i_def dividend_less_div_times)
  ultimately have "in_range (range_of N M i) key"
    using lt by (simp add: in_range_def range_of_def)
  with lt show ?thesis by (intro exI [of _ i]) simp
qed

lemma range_of_unique:
  assumes "1 \<le> N" "key < M"
  shows "\<exists>!i. i < N \<and> in_range (range_of N M i) key"
proof -
  from range_of_cover [OF assms] obtain i where i: "i < N" "in_range (range_of N M i) key"
    by blast
  have "j = i" if "j < N" "in_range (range_of N M j) key" for j
  proof (rule ccontr)
    assume "j \<noteq> i"
    then consider "j < i" | "i < j" by linarith
    then show False
      using range_of_disjoint [of j i N M key] range_of_disjoint [of i j N M key] i that
      by cases blast+
  qed
  with i show ?thesis by blast
qed

lemma range_of_beyond:
  assumes "M \<le> key" "i < N"
  shows "\<not> in_range (range_of N M i) key"
proof (cases "i = N - 1")
  case True
  with assms show ?thesis by (simp add: in_range_def range_of_def)
next
  case False
  with assms(2) have "i + 1 \<le> N" by simp
  from mult_div_le_total [OF this, of M] assms(1) False show ?thesis
    by (simp add: in_range_def range_of_def)
qed

lemma shard_id_in_range:
  assumes "i < N" "in_range (range_of N M i) key"
  shows "RangeSharding_shard_id (map (range_of N M) [0..<N]) key = Inr i"
proof -
  have "\<forall>j < i. \<not> in_range (range_of N M j) key"
    using range_of_disjoint [of _ i N M key] assms by blast
  with assms have "find_range (map (range_of N M) [0..<N]) key = Some i"
    unfolding find_range_Some by (intro exI [of _ i]) (simp add: range_of_def)
  then show ?thesis by (simp add: RangeSharding_shard_id_def)
qed

lemma shard_id_beyond:
  assumes "1 \<le> N" "M \<le> key"
  shows "RangeSharding_shard_id (map (range_of N M) [0..<N]) key = Inr (N - 1)"
proof -
  have "find_range (map (range_of N M) [0..<N]) key = None"
    unfolding find_range_None using range_of_beyond [OF assms(2)] by auto
  moreover have "last (map (range_of N M) [0..<N]) = range_of N M (N - 1)"
    using assms(1) by (simp add: last_map)
  ultimately show ?thesis
    using assms(1) by (simp add: RangeSharding_shard_id_def range_of_def)
qed

text \<open>
  C5 (amended). A RangeSharding built with \<open>N \<ge> 1\<close> shards and \<open>M\<close> total keys, where \<open>M\<close>
  is a \<^verbatim>\<open>size_t\<close> value that the key type can hold (\<open>M < 2 ^ W\<close> for keys of \<open>W\<close> bits), has
  \<open>N\<close> intervals, the \<open>i\<close>-th owned by shard \<open>i\<close>; the first starts at 0, each ends where
  the next starts, the last ends at \<open>M\<close>. Every key below \<open>M\<close> lies in exactly one interval
  and \<^verbatim>\<open>shard_id\<close> returns the shard of an interval holding it; every key from \<open>M\<close> upwards
  is sent to shard \<open>N - 1\<close>.
\<close>

theorem RangeSharding_partition:
  assumes "1 \<le> N" "M < 2 ^ 64" "M < 2 ^ W"
  shows "\<exists>ranges. RangeSharding_init W N M = Inr ranges \<and> length ranges = N \<and>
     (\<forall>i < N. range_shard_id (ranges ! i) = i \<and> min_key (ranges ! i) \<le> max_key (ranges ! i)) \<and>
     min_key (ranges ! 0) = 0 \<and> max_key (ranges ! (N - 1)) = M \<and>
     (\<forall>i. Suc i < N \<longrightarrow> max_key (ranges ! i) = min_key (ranges ! Suc i)) \<and>
     (\<forall>key < M. \<exists>!i. i < N \<and> in_range (ranges ! i) key) \<and>
     (\<forall>key < M. \<exists>i < N. in_range (ranges ! i) key \<and> RangeSharding_shard_id ranges key = Inr i) \<and>
     (\<forall>key \<ge> M. RangeSharding_shard_id ranges key = Inr (N - 1))"
proof -
  let ?rs = "map (range_of N M) [0..<N]"
  have nth: "?rs ! i = range_of N M i" if "i < N" for i using that by simp
  have ids: "\<forall>i < N. range_shard_id (?rs ! i) = i \<and> min_key (?rs ! i) \<le> max_key (?rs ! i)"
  proof (intro allI impI)
    fix i assume i: "i < N"
    have "min_key (range_of N M i) \<le> max_key (range_of N M i)"
    proof (cases "i = N - 1")
      case True
      have "i * (M div N) \<le> M" using mult_div_le_total [of i N M] i by simp
      with True show ?thesis by (simp add: range_of_def)
    next
      case False
      then show ?thesis by (simp add: range_of_def)
    qed
    with i show "range_shard_id (?rs ! i) = i \<and> min_key (?rs ! i) \<le> max_key (?rs ! i)"
      by (simp add: range_of_def)
  qed
  have ends: "min_key (?rs ! 0) = 0 \<and> max_key (?rs ! (N - 1)) = M"
    using assms(1) by (simp add: range_of_def)
  have contiguous: "\<forall>i. Suc i < N \<longrightarrow> max_key (?rs ! i) = min_key (?rs ! Suc i)"
    by (auto simp: range_of_def)
  have unique: "\<forall>key < M. \<exists>!i. i < N \<and> in_range (?rs ! i) key"
  proof (intro allI impI)
    fix key assume "key < M"
    from range_of_unique [OF assms(1) this]
    show "\<exists>!i. i < N \<and> in_range (?rs ! i) key"
      by (metis (no_types, lifting) nth)
  qed
  have routed: "\<forall>key < M. \<exists>i < N. in_range (?rs ! i) key \<and> RangeSharding_shard_id ?rs key = Inr i"
  proof (intro allI impI)
    fix key assume "key < M"
    from range_of_cover [OF assms(1) this] obtain i where "i < N" "in_range (range_of N M i) key"
      by blast
    then show "\<exists>i < N. in_range (?rs ! i) key \<and> RangeSharding_shard_id ?rs key = Inr i"
      using shard_id_in_range [of i N M key] by (intro exI [of _ i]) simp
  qed
  have beyond: "\<forall>key \<ge> M. RangeSharding_shard_id ?rs key = Inr (N - 1)"
    using shard_id_beyond [OF assms(1)] by blast
  show ?thesis
    using RangeSharding_init_eq [OF assms] ids ends contiguous unique routed beyond
    by (intro exI [of _ ?rs]) simp
qed

theorem RangeSharding_partition_witness:
  "(1::nat) \<le> 3 \<and> (10::nat) < 2 ^ 64 \<and> (10::nat) < 2 ^ 32 \<and>
   RangeSharding_init 32 3 10 =
     Inr [\<lparr>min_key = 0, max_key = 3, range_shard_id = 0\<rparr>,
          \<lparr>min_key = 3, max_key = 6, range_shard_id = 1\<rparr>,
          \<lparr>min_key = 6, max_key = 10, range_shard_id = 2\<rparr>] \<and>
   (\<exists>ranges. RangeSharding_init 32 3 10 = Inr ranges \<and>
      (\<exists>!i. i < 3 \<and> in_range (ranges ! i) 7) \<and>
      RangeSharding_shard_id ranges 7 = Inr 2 \<and>
      RangeSharding_shard_id ranges 12 = Inr 2)"
proof -
  have init: "RangeSharding_init 32 3 10 =
     Inr [\<lparr>min_key = 0, max_key = 3, range_shard_id = 0\<rparr>,
          \<lparr>min_key = 3, max_key = 6, range_shard_id = 1\<rparr>,
          \<lparr>min_key = 6, max_key = 10, range_shard_id = 2\<rparr>]"
    by (simp add: RangeSharding_init_def Let_def u64_def vector_key_t_def upt_rec)
  have h1: "(1::nat) \<le> 3" and h2: "(10::nat) < 2 ^ 64" and h3: "(10::nat) < 2 ^ 32"
    by simp_all
  from RangeSharding_partition [OF h1 h2 h3] obtain ranges where
    r: "RangeSharding_init 32 3 10 = Inr ranges"
    and u: "\<forall>key < 10. \<exists>!i. i < 3 \<and> in_range (ranges ! i) key"
    and s: "\<forall>key < 10. \<exists>i < 3. in_range (ranges ! i) key
              \<and> RangeSharding_shard_id ranges key = Inr i"
    and b: "\<forall>key \<ge> 10. RangeSharding_shard_id ranges key = Inr (3 - 1)"
    by blast
  from u have u7: "\<exists>!i. i < 3 \<and> in_range (ranges ! i) 7" by simp
  from b have b12: "RangeSharding_shard_id ranges 12 = Inr 2" by simp
  from r init have eq: "ranges = [\<lparr>min_key = 0, max_key = 3, range_shard_id = 0\<rparr>,
          \<lparr>min_key = 3, max_key = 6, range_shard_id = 1\<rparr>,
          \<lparr>min_key = 6, max_key = 10, range_shard_id = 2\<rparr>]"
    by simp
  have "RangeSharding_shard_id ranges 7 = Inr 2"
    unfolding eq by (simp add: RangeSharding_shard_id_def)
  with r u7 b12 init h1 h2 h3 show ?thesis by blast
qed

text \<open>
  C5 as claimed, without the bound on \<open>M\<close>: with 32-bit keys, two shards and
  \<open>M = 2 ^ 33\<close> total keys, \<^verbatim>\<open>keys_per_shard\<close> is \<open>2 ^ 32\<close> converted to the key type, that
  is 0, and the last upper bound is \<open>2 ^ 33\<close> converted, 0 again. Both intervals are
  empty: key 5, below \<open>M\<close>, lies in no interval, and only the fallback sends it to the last
  shard.
\<close>

theorem RangeSharding_key_conversion_loses_cover:
  "RangeSharding_init 32 2 (2 ^ 33)
     = Inr [\<lparr>min_key = 0, max_key = 0, range_shard_id = 0\<rparr>,
            \<lparr>min_key = 0, max_key = 0, range_shard_id = 1\<rparr>] \<and>
   (1::nat) \<le> 2 \<and> (2::nat) ^ 33 < 2 ^ 64 \<and> (5::nat) < 2 ^ 33 \<and>
   \<not> in_range \<lparr>min_key = 0, max_key = 0, range_shard_id = 0\<rparr> 5 \<and>
   \<not> in_range \<lparr>min_key = 0, max_key = 0, range_shard_id = 1\<rparr> 5 \<and>
   RangeSharding_shard_id [\<lparr>min_key = 0, max_key = 0, range_shard_id = 0\<rparr>,
                           \<lparr>min_key = 0, max_key = 0, range_shard_id = 1\<rparr>] 5 = Inr 1"
  by (simp add: RangeSharding_init_def Let_def u64_def vector_key_t_def upt_rec in_range_def
      RangeSharding_shard_id_def)

section \<open>IEEE 754 binary64 arithmetic\<close>

text \<open>
  The averages and scores of the load balancer are C++ \<^verbatim>\<open>double\<close> values, and the source
  adds, multiplies, divides and compares them. A \<^verbatim>\<open>double\<close> is modelled by what it denotes:
  a finite number is its sign (\<open>True\<close> for negative) and its magnitude, a rational number
  (the two zeros keep their signs); an infinity is its sign; NaN is one value (payloads are
  not told apart).
\<close>

datatype double = Finite bool rat | Infinity bool | NaN

fun valof :: "double \<Rightarrow> rat" where
  "valof (Finite s m) = (if s then - m else m)"
| "valof (Infinity s) = 0"
| "valof NaN = 0"

text \<open>
  Rounding to nearest, ties to the even significand (the default rounding of IEEE 754, in
  which the source is compiled and run): \<open>round_double s a\<close> is the double of sign \<open>s\<close>
  nearest to the magnitude \<open>a\<close>. \<open>ilog2 a\<close> is the binary exponent of \<open>a > 0\<close>
  (\<open>2 ^ ilog2 a \<le> a < 2 ^ (ilog2 a + 1)\<close>); the last place of the result has the exponent
  \<open>t\<close>, 52 places below the exponent of \<open>a\<close> and never below that of the subnormal numbers;
  a magnitude that rounds to \<open>2 ^ 1024\<close> or more overflows to an infinity.
\<close>

definition ilog2 :: "rat \<Rightarrow> int" where
  "ilog2 x =
     (let (p, q) = quotient_of x; e = bitlen p - bitlen q
      in if 2 powi e \<le> x then e else e - 1)"

definition round_half_even :: "rat \<Rightarrow> int" where
  "round_half_even y =
     (let n = \<lfloor>y\<rfloor>; f = y - of_int n
      in if f < 1 / 2 then n else if 1 / 2 < f then n + 1 else if even n then n else n + 1)"

definition round_double :: "bool \<Rightarrow> rat \<Rightarrow> double" where
  "round_double s a =
     (if a = 0 then Finite s 0
      else
        let t = max (ilog2 a) (- 1022) - 52;
            v = of_int (round_half_even (a / 2 powi t)) * 2 powi t
        in if 2 powi 1024 \<le> v then Infinity s else Finite s v)"

text \<open>
  The operations: the exact result of the operation on the values, rounded; the special
  cases for infinities, zeros and NaN are those of the standard. A comparison with NaN is
  false.
\<close>

fun fadd :: "double \<Rightarrow> double \<Rightarrow> double" where
  "fadd NaN y = NaN"
| "fadd x NaN = NaN"
| "fadd (Infinity s) (Infinity s') = (if s = s' then Infinity s else NaN)"
| "fadd (Infinity s) (Finite s' m') = Infinity s"
| "fadd (Finite s m) (Infinity s') = Infinity s'"
| "fadd (Finite s m) (Finite s' m') =
     (let x = valof (Finite s m) + valof (Finite s' m')
      in if x = 0 then Finite (s \<and> s') 0 else round_double (x < 0) \<bar>x\<bar>)"

fun fmul :: "double \<Rightarrow> double \<Rightarrow> double" where
  "fmul NaN y = NaN"
| "fmul x NaN = NaN"
| "fmul (Infinity s) (Infinity s') = Infinity (s \<noteq> s')"
| "fmul (Infinity s) (Finite s' m') = (if m' = 0 then NaN else Infinity (s \<noteq> s'))"
| "fmul (Finite s m) (Infinity s') = (if m = 0 then NaN else Infinity (s \<noteq> s'))"
| "fmul (Finite s m) (Finite s' m') = round_double (s \<noteq> s') (m * m')"

fun fdiv :: "double \<Rightarrow> double \<Rightarrow> double" where
  "fdiv NaN y = NaN"
| "fdiv x NaN = NaN"
| "fdiv (Infinity s) (Infinity s') = NaN"
| "fdiv (Infinity s) (Finite s' m') = Infinity (s \<noteq> s')"
| "fdiv (Finite s m) (Infinity s') = Finite (s \<noteq> s') 0"
| "fdiv (Finite s m) (Finite s' m') =
     (if m' = 0 then (if m = 0 then NaN else Infinity (s \<noteq> s'))
      else round_double (s \<noteq> s') (m / m'))"

fun flt :: "double \<Rightarrow> double \<Rightarrow> bool" where
  "flt NaN y = False"
| "flt x NaN = False"
| "flt (Infinity s) (Infinity s') = (s \<and> \<not> s')"
| "flt (Infinity s) (Finite s' m') = s"
| "flt (Finite s m) (Infinity s') = (\<not> s')"
| "flt (Finite s m) (Finite s' m') = (valof (Finite s m) < valof (Finite s' m'))"

text \<open>
  A decimal literal of the source (\<^verbatim>\<open>10.0\<close>, \<^verbatim>\<open>0.9\<close>, \<^verbatim>\<open>0.1\<close>) is the double nearest to it;
  the conversion of a \<^verbatim>\<open>uint64_t\<close> to \<^verbatim>\<open>double\<close> rounds in the same way (a count above
  \<open>2 ^ 53\<close> need not be a double). \<open>DBL_MAX\<close> is \<^verbatim>\<open>std::numeric_limits<double>::max()\<close>.
\<close>

definition double_literal :: "rat \<Rightarrow> double" where
  "double_literal q = round_double (q < 0) \<bar>q\<bar>"

definition of_uint64 :: "64 word \<Rightarrow> double" where
  "of_uint64 w = round_double False (of_int (uint w))"

definition DBL_MAX :: double where
  "DBL_MAX = Finite False ((2 ^ 53 - 1) * 2 ^ 971)"

subsection \<open>Properties of rounding\<close>

lemma powi2_le_D: "(2::rat) powi m \<le> 2 powi n \<Longrightarrow> m \<le> n"
proof (rule ccontr)
  assume le: "(2::rat) powi m \<le> 2 powi n" and "\<not> m \<le> n"
  then have "n < m" by simp
  then have "(2::rat) powi n < 2 powi m" by (rule power_int_strict_increasing) simp
  with le show False by simp
qed

lemma powi2_less_D: "(2::rat) powi m < 2 powi n \<Longrightarrow> m < n"
proof (rule ccontr)
  assume less: "(2::rat) powi m < 2 powi n" and "\<not> m < n"
  then have "n \<le> m" by simp
  then have "(2::rat) powi n \<le> 2 powi m" by (rule power_int_increasing) simp
  with less show False by simp
qed

lemma ilog2_bounds:
  assumes "0 < a"
  shows "2 powi ilog2 a \<le> a \<and> a < 2 powi (ilog2 a + 1)"
proof -
  obtain p q where pq: "quotient_of a = (p, q)" by (cases "quotient_of a")
  then have q: "0 < q" and a: "a = of_int p / of_int q"
    by (simp_all add: quotient_of_denom_pos quotient_of_div)
  with assms have p: "0 < p" by (simp add: zero_less_divide_iff)
  define e where "e = bitlen p - bitlen q"
  have il: "ilog2 a = (if 2 powi e \<le> a then e else e - 1)"
    by (simp add: ilog2_def pq e_def Let_def)
  have bp: "1 \<le> bitlen p" using p by (simp add: bitlen_alt_def)
  have bq: "1 \<le> bitlen q" using q by (simp add: bitlen_alt_def)
  from bitlen_bounds [OF p] have "(2::int) ^ nat (bitlen p - 1) \<le> p" "p < 2 ^ nat (bitlen p)"
    by simp_all
  then have p_lo: "(2::rat) ^ nat (bitlen p - 1) \<le> of_int p"
    and p_hi: "of_int p < (2::rat) ^ nat (bitlen p)"
    by (metis of_int_le_iff of_int_numeral of_int_power,
        metis of_int_less_iff of_int_numeral of_int_power)
  from bitlen_bounds [OF q] have "(2::int) ^ nat (bitlen q - 1) \<le> q" "q < 2 ^ nat (bitlen q)"
    by simp_all
  then have q_lo: "(2::rat) ^ nat (bitlen q - 1) \<le> of_int q"
    and q_hi: "of_int q < (2::rat) ^ nat (bitlen q)"
    by (metis of_int_le_iff of_int_numeral of_int_power,
        metis of_int_less_iff of_int_numeral of_int_power)
  have lower: "(2::rat) powi (e - 1) < a"
  proof -
    have "e - 1 = (bitlen p - 1) - bitlen q" by (simp add: e_def)
    then have "(2::rat) powi (e - 1) = 2 powi (bitlen p - 1) / 2 powi (bitlen q)"
      by (simp only: power_int_diff [of "2::rat", simplified])
    also have "\<dots> = 2 ^ nat (bitlen p - 1) / 2 ^ nat (bitlen q)"
      using bp bq by (simp add: power_int_nonneg_exp)
    also have "\<dots> \<le> of_int p / 2 ^ nat (bitlen q)"
      using p_lo by (simp add: divide_right_mono)
    also have "\<dots> < of_int p / of_int q"
      using q_hi p q by (simp add: divide_strict_left_mono)
    finally show ?thesis using a by simp
  qed
  have upper: "a < (2::rat) powi (e + 1)"
  proof -
    have "of_int p / of_int q < (2::rat) ^ nat (bitlen p) / of_int q"
      using p_hi q by (simp add: divide_strict_right_mono)
    also have "\<dots> \<le> 2 ^ nat (bitlen p) / 2 ^ nat (bitlen q - 1)"
      using q_lo by (intro frac_le) simp_all
    also have "\<dots> = 2 powi (bitlen p) / 2 powi (bitlen q - 1)"
      using bp bq by (simp add: power_int_nonneg_exp)
    also have "\<dots> = 2 powi (bitlen p - (bitlen q - 1))"
      by (simp only: power_int_diff [of "2::rat", simplified])
    also have "bitlen p - (bitlen q - 1) = e + 1" by (simp add: e_def)
    finally show ?thesis using a by simp
  qed
  show ?thesis
  proof (cases "(2::rat) powi e \<le> a")
    case True
    with il upper show ?thesis by simp
  next
    case False
    with il lower show ?thesis by simp
  qed
qed

lemma ilog2_eqI:
  assumes "2 powi e \<le> a" "a < 2 powi (e + 1)"
  shows "ilog2 a = e"
proof -
  have "(0::rat) < 2 powi e" by simp
  from this assms(1) have pos: "0 < a" by (rule less_le_trans)
  from ilog2_bounds [OF pos] have b: "2 powi ilog2 a \<le> a" "a < 2 powi (ilog2 a + 1)"
    by simp_all
  from b(1) assms(2) have "(2::rat) powi ilog2 a < 2 powi (e + 1)" by simp
  then have "ilog2 a < e + 1" by (rule powi2_less_D)
  moreover from assms(1) b(2) have "(2::rat) powi e < 2 powi (ilog2 a + 1)" by simp
  then have "e < ilog2 a + 1" by (rule powi2_less_D)
  ultimately show ?thesis by simp
qed

lemma ilog2_le:
  assumes "0 < a" "a \<le> 2 powi k"
  shows "ilog2 a \<le> k"
proof -
  from ilog2_bounds [OF assms(1)] assms(2) have "(2::rat) powi ilog2 a \<le> 2 powi k" by simp
  then show ?thesis by (rule powi2_le_D)
qed

lemma round_double_eqI:
  assumes "2 powi e \<le> a" "a < 2 powi (e + 1)"
    and "round_half_even (a / 2 powi (max e (- 1022) - 52)) = n"
    and "of_int n * 2 powi (max e (- 1022) - 52) = v"
    and "v < 2 powi 1024"
  shows "round_double s a = Finite s v"
proof -
  have "(0::rat) < 2 powi e" by simp
  from this assms(1) have "0 < a" by (rule less_le_trans)
  then have "a \<noteq> 0" by simp
  with ilog2_eqI [OF assms(1,2)] assms(3,4,5) show ?thesis
    by (simp add: round_double_def Let_def)
qed

lemma floor_rat_numeral [simp]: "\<lfloor>numeral a / numeral b :: rat\<rfloor> = numeral a div numeral b"
  by (metis floor_divide_of_int_eq of_int_numeral)

lemma round_half_even_nonneg: "0 \<le> y \<Longrightarrow> 0 \<le> round_half_even y"
  by (auto simp: round_half_even_def Let_def)

lemma round_half_even_le:
  assumes "y \<le> of_int K"
  shows "round_half_even y \<le> K"
proof -
  have fl: "\<lfloor>y\<rfloor> \<le> K" using assms by (simp add: floor_le_iff)
  show ?thesis
  proof (cases "y = of_int \<lfloor>y\<rfloor>")
    case True
    then have "y - of_int \<lfloor>y\<rfloor> < 1 / 2" by simp
    then have "round_half_even y = \<lfloor>y\<rfloor>" by (simp add: round_half_even_def Let_def)
    with fl show ?thesis by simp
  next
    case False
    have "of_int \<lfloor>y\<rfloor> \<le> y" by (rule of_int_floor_le)
    with False have "of_int \<lfloor>y\<rfloor> < y" by (metis less_le)
    with assms have "of_int \<lfloor>y\<rfloor> < (of_int K :: rat)" by simp
    then have "\<lfloor>y\<rfloor> < K" by simp
    then have "\<lfloor>y\<rfloor> + 1 \<le> K" by simp
    with fl show ?thesis by (auto simp: round_half_even_def Let_def)
  qed
qed

lemma round_double_bound:
  assumes "0 \<le> a" "a \<le> 2 powi k" "- 1074 \<le> k" "k \<le> 1023"
  shows "\<exists>v. round_double s a = Finite s v \<and> 0 \<le> v \<and> v \<le> 2 powi k"
proof (cases "a = 0")
  case True
  then show ?thesis by (simp add: round_double_def)
next
  case False
  with assms(1) have pos: "0 < a" by simp
  define t where "t = max (ilog2 a) (- 1022) - 52"
  define n where "n = round_half_even (a / 2 powi t)"
  define v :: rat where "v = of_int n * 2 powi t"
  from ilog2_le [OF pos assms(2)] assms(3) have t: "t \<le> k" by (simp add: t_def)
  then have kt: "0 \<le> k - t" by simp
  have "a / 2 powi t \<le> 2 powi k / 2 powi t"
    using assms(2) by (simp add: divide_right_mono)
  also have "\<dots> = 2 powi (k - t)" by (simp only: power_int_diff [of "2::rat", simplified])
  also have "\<dots> = of_int (2 ^ nat (k - t))" using kt by (simp add: power_int_nonneg_exp)
  finally have "n \<le> 2 ^ nat (k - t)" unfolding n_def by (rule round_half_even_le)
  then have "(of_int n :: rat) \<le> of_int (2 ^ nat (k - t))" by (simp only: of_int_le_iff)
  then have "(of_int n :: rat) \<le> 2 powi (k - t)" using kt by (simp add: power_int_nonneg_exp)
  then have "v \<le> 2 powi (k - t) * 2 powi t" unfolding v_def by (simp add: mult_right_mono)
  also have "\<dots> = 2 powi k"
    using power_int_add [of "2::rat" "k - t" t] by simp
  finally have v_le: "v \<le> 2 powi k" .
  have "0 \<le> a / 2 powi t" using assms(1) by simp
  then have "0 \<le> n" unfolding n_def by (rule round_half_even_nonneg)
  then have v_ge: "0 \<le> v" by (simp add: v_def)
  have "(2::rat) powi k < 2 powi 1024"
    using assms(4) by (intro power_int_strict_increasing) simp_all
  with v_le have "\<not> 2 powi 1024 \<le> v" by simp
  with False have "round_double s a = Finite s v"
    by (simp add: round_double_def Let_def t_def n_def v_def)
  with v_ge v_le show ?thesis by blast
qed

lemma round_half_even_of_int: "round_half_even (of_int k) = k"
  by (simp add: round_half_even_def Let_def)

lemma round_double_exact:
  assumes "0 < n" "n < 2 ^ 53" "- 1074 \<le> t" "t \<le> 971"
  shows "round_double s (of_int n * 2 powi t) = Finite s (of_int n * 2 powi t)"
proof -
  define a :: rat where "a = of_int n * 2 powi t"
  have pos: "0 < a" using assms(1) by (simp add: a_def)
  have "(of_int n :: rat) < of_int (2 ^ 53)" using assms(2) by (simp only: of_int_less_iff)
  then have "(of_int n :: rat) < 2 powi 53" by simp
  then have "a < 2 powi 53 * 2 powi t" unfolding a_def by (simp add: mult_strict_right_mono)
  also have "\<dots> = 2 powi (53 + t)" using power_int_add [of "2::rat" 53 t] by simp
  finally have hi: "a < 2 powi (53 + t)" .
  from ilog2_bounds [OF pos] hi have "(2::rat) powi ilog2 a < 2 powi (53 + t)" by simp
  then have il: "ilog2 a < 53 + t" by (rule powi2_less_D)
  define t' where "t' = max (ilog2 a) (- 1022) - 52"
  from il assms(3) have t': "t' \<le> t" by (simp add: t'_def)
  have "a / 2 powi t' = of_int n * (2 powi t / 2 powi t')" by (simp add: a_def)
  also have "2 powi t / 2 powi t' = (2::rat) powi (t - t')"
    by (simp only: power_int_diff [of "2::rat", simplified])
  also have "\<dots> = of_int (2 ^ nat (t - t'))" using t' by (simp add: power_int_nonneg_exp)
  finally have q: "a / 2 powi t' = of_int (n * 2 ^ nat (t - t'))" by simp
  have rhe: "round_half_even (a / 2 powi t') = n * 2 ^ nat (t - t')"
    unfolding q by (rule round_half_even_of_int)
  have "(of_int (n * 2 ^ nat (t - t')) :: rat) * 2 powi t' = a / 2 powi t' * 2 powi t'"
    by (simp only: q)
  then have v: "(of_int (n * 2 ^ nat (t - t')) :: rat) * 2 powi t' = a" by simp
  have "(2::rat) powi (53 + t) \<le> 2 powi 1024"
    using assms(4) by (intro power_int_increasing) simp_all
  with hi have "\<not> 2 powi 1024 \<le> a" by simp
  with pos rhe v have "round_double s a = Finite s a"
    by (simp add: round_double_def Let_def t'_def [symmetric])
  then show ?thesis by (simp add: a_def)
qed

lemma round_double_int:
  assumes "0 \<le> n" "n < 2 ^ 53"
  shows "round_double s (of_int n) = Finite s (of_int n)"
proof (cases "n = 0")
  case True
  then show ?thesis by (simp add: round_double_def)
next
  case False
  with assms(1) have "0 < n" by simp
  from round_double_exact [OF this assms(2), of 0 s] show ?thesis by simp
qed

lemma fadd_commute: "fadd a b = fadd b a"
  by (cases a; cases b) (auto simp: Let_def add.commute)

lemma fmul_commute: "fmul a b = fmul b a"
proof -
  have "(s \<noteq> s') = (s' \<noteq> s)" for s s' :: bool by auto
  then show ?thesis by (cases a; cases b) (simp_all add: mult.commute)
qed

lemma round_double_numeral:
  "numeral k < (2::int) ^ 53 \<Longrightarrow> round_double s (numeral k) = Finite s (numeral k)"
  using round_double_int [of "numeral k" s] by simp

lemma round_double_half:
  "numeral k < (2::int) ^ 53 \<Longrightarrow> round_double s (numeral k / 2) = Finite s (numeral k / 2)"
  using round_double_exact [of "numeral k" "- 1" s] by (simp add: power_int_minus_divide)

lemma round_double_one_half: "round_double s (1 / 2) = Finite s (1 / 2)"
  using round_double_exact [of 1 "- 1" s] by (simp add: power_int_minus_divide)

lemma round_double_one: "round_double s 1 = Finite s 1"
  using round_double_int [of 1 s] by simp

lemma round_double_zero: "round_double s 0 = Finite s 0"
  by (simp add: round_double_def)

lemma round_half_even_error: "\<bar>of_int (round_half_even y) - y\<bar> \<le> 1 / 2"
proof -
  define f where "f = y - of_int \<lfloor>y\<rfloor>"
  have "of_int \<lfloor>y\<rfloor> \<le> y" by (rule of_int_floor_le)
  then have f0: "0 \<le> f" by (simp add: f_def)
  have "y < of_int \<lfloor>y\<rfloor> + 1" by linarith
  then have f1: "f < 1" by (simp add: f_def)
  have y: "y = of_int \<lfloor>y\<rfloor> + f" by (simp add: f_def)
  consider "f < 1 / 2" | "1 / 2 < f" | "f = 1 / 2" by linarith
  then show ?thesis
  proof cases
    case 1
    then have "round_half_even y = \<lfloor>y\<rfloor>"
      by (simp add: round_half_even_def Let_def f_def)
    then have "of_int (round_half_even y) - y = - f" by (simp add: f_def)
    with f0 1 show ?thesis by simp
  next
    case 2
    then have "round_half_even y = \<lfloor>y\<rfloor> + 1"
      by (simp add: round_half_even_def Let_def f_def)
    then have "of_int (round_half_even y) - y = 1 - f" by (simp add: f_def)
    with f1 2 show ?thesis by simp
  next
    case 3
    then have "round_half_even y = \<lfloor>y\<rfloor> \<or> round_half_even y = \<lfloor>y\<rfloor> + 1"
      by (simp add: round_half_even_def Let_def f_def)
    then have "of_int (round_half_even y) - y = - f \<or> of_int (round_half_even y) - y = 1 - f"
      by (auto simp: f_def)
    with 3 show ?thesis by auto
  qed
qed

lemma round_double_near:
  assumes "0 < a" "a < 2 powi 51"
  shows "\<exists>x. round_double s a = Finite s x \<and> \<bar>x - a\<bar> \<le> 1 / 8"
proof -
  from ilog2_bounds [OF assms(1)] assms(2) have "(2::rat) powi ilog2 a < 2 powi 51" by simp
  then have il: "ilog2 a < 51" by (rule powi2_less_D)
  define t where "t = max (ilog2 a) (- 1022) - 52"
  define n where "n = round_half_even (a / 2 powi t)"
  from il have "t \<le> - 2" by (simp add: t_def)
  then have "(2::rat) powi t \<le> 2 powi (- 2)" by (intro power_int_increasing) simp_all
  then have ulp: "(2::rat) powi t \<le> 1 / 4" by (simp add: power_int_minus_divide)
  have pos: "(0::rat) < 2 powi t" by simp
  have "\<bar>of_int n * 2 powi t - a\<bar> = \<bar>of_int n - a / 2 powi t\<bar> * 2 powi t"
  proof -
    have "of_int n * 2 powi t - a = (of_int n - a / 2 powi t) * 2 powi t"
      by (simp add: algebra_simps)
    then show ?thesis using pos by (simp add: abs_mult)
  qed
  also have "\<dots> \<le> 1 / 2 * 2 powi t"
    using round_half_even_error [of "a / 2 powi t"] pos unfolding n_def
    by (intro mult_right_mono) simp_all
  also have "\<dots> \<le> 1 / 8" using ulp by simp
  finally have err: "\<bar>of_int n * 2 powi t - a\<bar> \<le> 1 / 8" .
  from err have "of_int n * 2 powi t \<le> a + 1 / 8" by linarith
  with assms(2) have "of_int n * 2 powi t < (2::rat) powi 51 + 1 / 8" by linarith
  moreover have "(2::rat) powi 51 + 1 / 8 < 2 powi 1024" by simp
  ultimately have "\<not> (2::rat) powi 1024 \<le> of_int n * 2 powi t" by linarith
  with assms(1) have "round_double s a = Finite s (of_int n * 2 powi t)"
    by (simp add: round_double_def Let_def t_def n_def)
  with err show ?thesis by blast
qed

section \<open>AdaptiveLoadBalancer (advanced\_distributed.cpp)\<close>

text \<open>
  The counters are 64-bit atomics, modelled as words; the average latency is a \<^verbatim>\<open>double\<close>.
  The balancer is its vector \<^verbatim>\<open>shards_\<close> (the member \<^verbatim>\<open>current_index_\<close> is never read or
  written). \<^verbatim>\<open>shards_[shard_id]\<close> with an index past the end is undefined behaviour. Every
  arithmetic operation of the source is one operation of the model, rounded to \<^verbatim>\<open>double\<close>:
  \<^verbatim>\<open>active + latency / 10.0\<close> converts the counter, divides and adds;
  \<^verbatim>\<open>old_avg * 0.9 + latency_ms * 0.1\<close> is two products and a sum (no product is fused with
  the sum, and no intermediate result is kept in a wider format).
\<close>

record ShardStats =
  shard_id :: nat
  active_requests :: "64 word"
  total_requests :: "64 word"
  avg_latency_ms :: double
  error_count :: "64 word"

type_synonym AdaptiveLoadBalancer = "ShardStats list"

definition AdaptiveLoadBalancer_init :: "nat \<Rightarrow> AdaptiveLoadBalancer" where
  "AdaptiveLoadBalancer_init num_shards =
     map (\<lambda>i. \<lparr>shard_id = i, active_requests = 0, total_requests = 0,
                avg_latency_ms = Finite False 0, error_count = 0\<rparr>) [0..<num_shards]"

definition score :: "ShardStats \<Rightarrow> double" where
  "score shard =
     fadd (of_uint64 (active_requests shard)) (fdiv (avg_latency_ms shard) (double_literal 10))"

fun select_loop :: "ShardStats list \<Rightarrow> nat \<times> double \<Rightarrow> nat \<times> double" where
  "select_loop [] (best_shard, best_score) = (best_shard, best_score)"
| "select_loop (shard # shards) (best_shard, best_score) =
     (if flt (score shard) best_score then select_loop shards (shard_id shard, score shard)
      else select_loop shards (best_shard, best_score))"

definition select_shard :: "AdaptiveLoadBalancer \<Rightarrow> nat" where
  "select_shard shards = fst (select_loop shards (0, DBL_MAX))"

definition record_request_start :: "nat \<Rightarrow> AdaptiveLoadBalancer \<Rightarrow> error + AdaptiveLoadBalancer" where
  "record_request_start i shards =
     (if length shards \<le> i then Inl out_of_range
      else
        let s = shards ! i
        in Inr (shards[i := s\<lparr>active_requests := active_requests s + 1,
                              total_requests := total_requests s + 1\<rparr>]))"

definition record_request_end ::
  "nat \<Rightarrow> double \<Rightarrow> bool \<Rightarrow> AdaptiveLoadBalancer \<Rightarrow> error + AdaptiveLoadBalancer" where
  "record_request_end i latency_ms success shards =
     (if length shards \<le> i then Inl out_of_range
      else
        let s = shards ! i;
            s1 = s\<lparr>active_requests := active_requests s - 1\<rparr>;
            old_avg = avg_latency_ms s1;
            new_avg = fadd (fmul old_avg (double_literal (9 / 10)))
                           (fmul latency_ms (double_literal (1 / 10)));
            s2 = s1\<lparr>avg_latency_ms := new_avg\<rparr>;
            s3 = (if \<not> success then s2\<lparr>error_count := error_count s2 + 1\<rparr> else s2)
        in Inr (shards[i := s3]))"

text \<open>
  What every balancer built by the constructor satisfies, and every operation keeps: entry
  \<open>i\<close> carries \<^verbatim>\<open>shard_id = i\<close>. \<open>balancer_wf\<close> asks in addition that no average latency is
  NaN (\<open>is_number\<close>: an infinity, or a finite magnitude within the format). On such
  values \<^verbatim>\<open><\<close> is the order of \<open>rank\<close>.
\<close>

fun is_number :: "double \<Rightarrow> bool" where
  "is_number (Finite s m) = (0 \<le> m \<and> m < 2 ^ 1024)"
| "is_number (Infinity s) = True"
| "is_number NaN = False"

definition balancer_wf :: "AdaptiveLoadBalancer \<Rightarrow> bool" where
  "balancer_wf shards \<longleftrightarrow>
     (\<forall>i < length shards. shard_id (shards ! i) = i \<and> is_number (avg_latency_ms (shards ! i)))"

fun rank :: "double \<Rightarrow> rat" where
  "rank (Finite s m) = (if s then - m else m)"
| "rank (Infinity s) = (if s then - (2 ^ 1024) else 2 ^ 1024)"
| "rank NaN = 0"

lemma flt_rank: "is_number a \<Longrightarrow> is_number b \<Longrightarrow> flt a b \<longleftrightarrow> rank a < rank b"
  by (cases a; cases b) auto

lemma balancer_wf_init: "balancer_wf (AdaptiveLoadBalancer_init n)"
  by (simp add: balancer_wf_def AdaptiveLoadBalancer_init_def)

lemma balancer_wf_record_request_start:
  "balancer_wf shards \<Longrightarrow> record_request_start i shards = Inr shards' \<Longrightarrow> balancer_wf shards'"
  by (auto simp: balancer_wf_def record_request_start_def Let_def nth_list_update
      split: if_splits)

lemma balancer_wf_record_request_end:
  assumes "balancer_wf shards"
    and "record_request_end i latency_ms success shards = Inr shards'"
    and "is_number (avg_latency_ms (shards' ! i))"
  shows "balancer_wf shards'"
  using assms
  by (auto simp: balancer_wf_def record_request_end_def Let_def nth_list_update
      split: if_splits)

lemma double_literal_10: "double_literal 10 = Finite False 10"
  using round_double_int [of 10 False] by (simp add: double_literal_def)

lemma of_uint64_bound: "\<exists>u. of_uint64 w = Finite False u \<and> 0 \<le> u \<and> u \<le> 2 powi 64"
proof -
  have "uint w < 2 ^ 64" using uint_lt2p [of w] by simp
  then have "(of_int (uint w) :: rat) < of_int (2 ^ 64)" by (simp only: of_int_less_iff)
  then have hi: "(of_int (uint w) :: rat) \<le> 2 powi 64" by simp
  have "0 \<le> uint w" by simp
  then have lo: "(0::rat) \<le> of_int (uint w)" by (simp only: of_int_0_le_iff)
  show ?thesis
    unfolding of_uint64_def by (rule round_double_bound [OF lo hi]) simp_all
qed

lemma fdiv_10_bound:
  assumes "0 \<le> m" "m < 2 ^ 1024"
  shows "\<exists>v. fdiv (Finite s m) (double_literal 10) = Finite s v \<and> 0 \<le> v \<and> v \<le> 2 powi 1021"
proof -
  have "(2::rat) ^ 1024 = 8 * 2 ^ 1021" by simp
  with assms(2) have "m / 10 \<le> 2 ^ 1021" by simp
  then have "m / 10 \<le> 2 powi 1021" by simp
  moreover from assms(1) have "0 \<le> m / 10" by simp
  ultimately have "\<exists>v. round_double s (m / 10) = Finite s v \<and> 0 \<le> v \<and> v \<le> 2 powi 1021"
    by (intro round_double_bound) simp_all
  then show ?thesis by (simp add: double_literal_10)
qed

lemma fadd_bound:
  assumes "0 \<le> u" "u \<le> 2 powi 64" "0 \<le> v" "v \<le> 2 powi 1021"
  shows "\<exists>sg x. fadd (Finite False u) (Finite s v) = Finite sg x \<and> 0 \<le> x \<and> x \<le> 2 powi 1022"
proof -
  define y where "y = valof (Finite False u) + valof (Finite s v)"
  have "(2::rat) powi 64 \<le> 2 powi 1021" by (intro power_int_increasing) simp_all
  with assms have "\<bar>y\<bar> \<le> 2 powi 1021 + 2 powi 1021" by (auto simp: y_def)
  also have "\<dots> = 2 powi 1022" by simp
  finally have y: "\<bar>y\<bar> \<le> 2 powi 1022" .
  show ?thesis
  proof (cases "y = 0")
    case True
    then show ?thesis by (auto simp: Let_def y_def [symmetric] simp del: valof.simps)
  next
    case False
    have "\<exists>x. round_double (y < 0) \<bar>y\<bar> = Finite (y < 0) x \<and> 0 \<le> x \<and> x \<le> 2 powi 1022"
      using y by (intro round_double_bound) simp_all
    with False show ?thesis by (auto simp: Let_def y_def [symmetric] simp del: valof.simps)
  qed
qed

lemma score_cases:
  assumes "is_number (avg_latency_ms s)"
  shows "(\<exists>sg x. score s = Finite sg x \<and> 0 \<le> x \<and> x \<le> 2 powi 1022) \<or>
         (\<exists>sg. score s = Infinity sg)"
proof -
  obtain u where u: "of_uint64 (active_requests s) = Finite False u" "0 \<le> u" "u \<le> 2 powi 64"
    using of_uint64_bound by blast
  show ?thesis
  proof (cases "avg_latency_ms s")
    case (Finite sg m)
    with assms have "0 \<le> m" "m < 2 ^ 1024" by simp_all
    from fdiv_10_bound [OF this, of sg] obtain v where
      v: "fdiv (Finite sg m) (double_literal 10) = Finite sg v" "0 \<le> v" "v \<le> 2 powi 1021"
      by blast
    from fadd_bound [OF u(2,3) v(2,3), of sg] show ?thesis
      by (simp add: score_def Finite u(1) v(1))
  next
    case (Infinity sg)
    then show ?thesis by (simp add: score_def u(1) double_literal_10)
  next
    case NaN
    with assms show ?thesis by simp
  qed
qed

lemma score_is_number: "is_number (avg_latency_ms s) \<Longrightarrow> is_number (score s)"
proof -
  assume "is_number (avg_latency_ms s)"
  from score_cases [OF this] show ?thesis
  proof (elim disjE exE conjE)
    fix sg x assume s: "score s = Finite sg x" and x: "0 \<le> x" "x \<le> 2 powi 1022"
    have "(2::rat) powi 1022 < 2 powi 1024" by (intro power_int_strict_increasing) simp_all
    with x have "x < 2 powi 1024" by simp
    then have "x < 2 ^ 1024" by simp
    with s x show ?thesis by simp
  next
    fix sg assume "score s = Infinity sg"
    then show ?thesis by simp
  qed
qed

lemma DBL_MAX_is_number: "is_number DBL_MAX"
  by (simp add: DBL_MAX_def)

lemma score_not_below_DBL_MAX:
  assumes "is_number (avg_latency_ms s)" "\<not> flt (score s) DBL_MAX"
  shows "score s = Infinity False"
proof -
  from score_cases [OF assms(1)] show ?thesis
  proof (elim disjE exE conjE)
    fix sg x assume s: "score s = Finite sg x" and x: "0 \<le> x" "x \<le> 2 powi 1022"
    have "(2::rat) powi 1022 = 2 ^ 1022" by simp
    also have "\<dots> < (2 ^ 53 - 1) * 2 ^ 971" by simp
    finally have "x < (2 ^ 53 - 1) * 2 ^ 971" using x(2) by simp
    with x(1) have "flt (Finite sg x) DBL_MAX" by (simp add: DBL_MAX_def)
    with assms(2) s show ?thesis by simp
  next
    fix sg assume s: "score s = Infinity sg"
    with assms(2) show ?thesis by (cases sg) (simp_all add: DBL_MAX_def)
  qed
qed

lemma select_loop_cases:
  assumes "is_number bs" "\<forall>x \<in> set xs. is_number (score x)"
    and "select_loop xs (b, bs) = (r, rs)"
  shows "((r, rs) = (b, bs) \<and> (\<forall>j < length xs. \<not> flt (score (xs ! j)) bs)) \<or>
     (\<exists>i < length xs. r = shard_id (xs ! i) \<and> rs = score (xs ! i) \<and> flt rs bs \<and>
        (\<forall>j < i. flt rs (score (xs ! j))) \<and> (\<forall>j < length xs. \<not> flt (score (xs ! j)) rs))"
  using assms
proof (induction xs arbitrary: b bs)
  case Nil
  then show ?case by simp
next
  case (Cons x xs)
  from Cons.prems(2) have nx: "is_number (score x)" and nxs: "\<forall>x \<in> set xs. is_number (score x)"
    by simp_all
  have nj: "is_number (score (xs ! j))" if "j < length xs" for j
    using nxs that by simp
  show ?case
  proof (cases "flt (score x) bs")
    case True
    with Cons.prems have run: "select_loop xs (shard_id x, score x) = (r, rs)" by simp
    from Cons.IH [OF nx nxs run] show ?thesis
    proof
      assume same: "(r, rs) = (shard_id x, score x) \<and>
        (\<forall>j < length xs. \<not> flt (score (xs ! j)) (score x))"
      have "\<forall>j < length (x # xs). \<not> flt (score ((x # xs) ! j)) rs"
      proof (intro allI impI)
        fix j assume "j < length (x # xs)"
        with same nx show "\<not> flt (score ((x # xs) ! j)) rs"
          by (cases j) (auto simp: flt_rank)
      qed
      with same True have "0 < length (x # xs) \<and> r = shard_id ((x # xs) ! 0) \<and>
          rs = score ((x # xs) ! 0) \<and> flt rs bs \<and> (\<forall>j < 0. flt rs (score ((x # xs) ! j))) \<and>
          (\<forall>j < length (x # xs). \<not> flt (score ((x # xs) ! j)) rs)"
        by simp
      then show ?thesis by blast
    next
      assume "\<exists>i < length xs. r = shard_id (xs ! i) \<and> rs = score (xs ! i) \<and> flt rs (score x) \<and>
        (\<forall>j < i. flt rs (score (xs ! j))) \<and> (\<forall>j < length xs. \<not> flt (score (xs ! j)) rs)"
      then obtain i where i: "i < length xs" "r = shard_id (xs ! i)" "rs = score (xs ! i)"
        "flt rs (score x)" "\<forall>j < i. flt rs (score (xs ! j))"
        "\<forall>j < length xs. \<not> flt (score (xs ! j)) rs"
        by blast
      from i(1,3) nj have nrs: "is_number rs" by simp
      have before: "\<forall>j < Suc i. flt rs (score ((x # xs) ! j))"
      proof (intro allI impI)
        fix j assume "j < Suc i"
        with i(4,5) show "flt rs (score ((x # xs) ! j))" by (cases j) auto
      qed
      have all: "\<forall>j < length (x # xs). \<not> flt (score ((x # xs) ! j)) rs"
      proof (intro allI impI)
        fix j assume "j < length (x # xs)"
        with i(4,6) nrs nx show "\<not> flt (score ((x # xs) ! j)) rs"
          by (cases j) (auto simp: flt_rank)
      qed
      from i(4) True nrs nx Cons.prems(1) have "flt rs bs" by (simp add: flt_rank)
      with i before all have "Suc i < length (x # xs) \<and> r = shard_id ((x # xs) ! Suc i) \<and>
          rs = score ((x # xs) ! Suc i) \<and> flt rs bs \<and>
          (\<forall>j < Suc i. flt rs (score ((x # xs) ! j))) \<and>
          (\<forall>j < length (x # xs). \<not> flt (score ((x # xs) ! j)) rs)"
        by simp
      then show ?thesis by blast
    qed
  next
    case False
    with Cons.prems have run: "select_loop xs (b, bs) = (r, rs)" by simp
    from Cons.IH [OF Cons.prems(1) nxs run] show ?thesis
    proof
      assume same: "(r, rs) = (b, bs) \<and> (\<forall>j < length xs. \<not> flt (score (xs ! j)) bs)"
      have "\<forall>j < length (x # xs). \<not> flt (score ((x # xs) ! j)) bs"
      proof (intro allI impI)
        fix j assume "j < length (x # xs)"
        with same False show "\<not> flt (score ((x # xs) ! j)) bs" by (cases j) auto
      qed
      with same show ?thesis by blast
    next
      assume "\<exists>i < length xs. r = shard_id (xs ! i) \<and> rs = score (xs ! i) \<and> flt rs bs \<and>
        (\<forall>j < i. flt rs (score (xs ! j))) \<and> (\<forall>j < length xs. \<not> flt (score (xs ! j)) rs)"
      then obtain i where i: "i < length xs" "r = shard_id (xs ! i)" "rs = score (xs ! i)"
        "flt rs bs" "\<forall>j < i. flt rs (score (xs ! j))"
        "\<forall>j < length xs. \<not> flt (score (xs ! j)) rs"
        by blast
      from i(1,3) nj have nrs: "is_number rs" by simp
      from i(4) False nrs nx Cons.prems(1) have x: "flt rs (score x)" by (simp add: flt_rank)
      have before: "\<forall>j < Suc i. flt rs (score ((x # xs) ! j))"
      proof (intro allI impI)
        fix j assume "j < Suc i"
        with x i(5) show "flt rs (score ((x # xs) ! j))" by (cases j) auto
      qed
      have all: "\<forall>j < length (x # xs). \<not> flt (score ((x # xs) ! j)) rs"
      proof (intro allI impI)
        fix j assume "j < length (x # xs)"
        with x i(6) nrs nx show "\<not> flt (score ((x # xs) ! j)) rs"
          by (cases j) (auto simp: flt_rank)
      qed
      from i before all have "Suc i < length (x # xs) \<and> r = shard_id ((x # xs) ! Suc i) \<and>
          rs = score ((x # xs) ! Suc i) \<and> flt rs bs \<and>
          (\<forall>j < Suc i. flt rs (score ((x # xs) ! j))) \<and>
          (\<forall>j < length (x # xs). \<not> flt (score ((x # xs) ! j)) rs)"
        by simp
      then show ?thesis by blast
    qed
  qed
qed

lemma select_shard_minimal:
  assumes "shards \<noteq> []" "balancer_wf shards"
  shows "select_shard shards < length shards \<and>
     (\<forall>j < length shards. \<not> flt (score (shards ! j)) (score (shards ! select_shard shards))) \<and>
     (\<forall>j < select_shard shards. flt (score (shards ! select_shard shards)) (score (shards ! j)))"
proof -
  obtain r rs where run: "select_loop shards (0, DBL_MAX) = (r, rs)"
    by (cases "select_loop shards (0, DBL_MAX)")
  then have sel: "select_shard shards = r" by (simp add: select_shard_def)
  from assms(2) have avg: "is_number (avg_latency_ms (shards ! j))" if "j < length shards" for j
    using that by (simp add: balancer_wf_def)
  have num: "\<forall>x \<in> set shards. is_number (score x)"
  proof
    fix x assume "x \<in> set shards"
    then obtain j where "j < length shards" "x = shards ! j" by (metis in_set_conv_nth)
    with avg show "is_number (score x)" by (simp add: score_is_number)
  qed
  from assms(1) have len: "0 < length shards" by simp
  show ?thesis
    using select_loop_cases [OF DBL_MAX_is_number num run]
  proof
    assume none: "(r, rs) = (0, DBL_MAX) \<and> (\<forall>j < length shards. \<not> flt (score (shards ! j)) DBL_MAX)"
    then have inf: "score (shards ! j) = Infinity False" if "j < length shards" for j
      using that avg score_not_below_DBL_MAX by blast
    from none sel have "select_shard shards = 0" by simp
    with len inf show ?thesis by simp
  next
    assume "\<exists>i < length shards. r = shard_id (shards ! i) \<and> rs = score (shards ! i) \<and>
        flt rs DBL_MAX \<and> (\<forall>j < i. flt rs (score (shards ! j))) \<and>
        (\<forall>j < length shards. \<not> flt (score (shards ! j)) rs)"
    then obtain i where i: "i < length shards" "r = shard_id (shards ! i)"
      "rs = score (shards ! i)" "\<forall>j < i. flt rs (score (shards ! j))"
      "\<forall>j < length shards. \<not> flt (score (shards ! j)) rs"
      by blast
    from i(1,2) assms(2) have "r = i" by (simp add: balancer_wf_def)
    with sel i show ?thesis by simp
  qed
qed


lemma of_uint64_small: "uint w < 2 ^ 53 \<Longrightarrow> of_uint64 w = Finite False (of_int (uint w))"
  unfolding of_uint64_def by (rule round_double_int) simp_all

lemma score_near:
  assumes "0 \<le> v" "v \<le> 2 powi 47" "uint w \<le> 3"
  shows "\<exists>x. fadd (of_uint64 w) (Finite False v) = Finite False x \<and>
           \<bar>x - (of_int (uint w) + v)\<bar> \<le> 1 / 8"
proof -
  from assms(3) have small: "uint w < 2 ^ 53" by simp
  have w0: "0 \<le> uint w" by simp
  then have w0': "(0::rat) \<le> of_int (uint w)" by (simp only: of_int_0_le_iff)
  from assms(3) have "(of_int (uint w) :: rat) \<le> of_int 3" by (simp only: of_int_le_iff)
  then have w3: "(of_int (uint w) :: rat) \<le> 3" by simp
  define y where "y = of_int (uint w) + v"
  have y0: "0 \<le> y" using w0' assms(1) by (simp add: y_def)
  have "v \<le> 2 ^ 47" using assms(2) by simp
  with w3 have y51: "y < 2 powi 51" by (simp add: y_def)
  have eq: "fadd (of_uint64 w) (Finite False v)
      = (if y = 0 then Finite False 0 else round_double False y)"
    using y0 by (simp add: of_uint64_small [OF small] Let_def y_def)
  show ?thesis
  proof (cases "y = 0")
    case True
    with eq have "fadd (of_uint64 w) (Finite False v) = Finite False 0" by simp
    moreover from True have "\<bar>0 - (of_int (uint w) + v)\<bar> \<le> 1 / 8" by (simp add: y_def)
    ultimately show ?thesis by blast
  next
    case False
    with y0 have "0 < y" by simp
    from round_double_near [OF this y51, of False] obtain x where
      "round_double False y = Finite False x" "\<bar>x - y\<bar> \<le> 1 / 8"
      by blast
    with False eq have "fadd (of_uint64 w) (Finite False v) = Finite False x \<and>
        \<bar>x - (of_int (uint w) + v)\<bar> \<le> 1 / 8"
      by (simp add: y_def)
    then show ?thesis by blast
  qed
qed

lemma select_shard_example:
  assumes "0 \<le> m" "m \<le> 2 ^ 50"
  shows "select_shard
     [\<lparr>shard_id = 0, active_requests = 3, total_requests = ta,
       avg_latency_ms = Finite False m, error_count = ea\<rparr>,
      \<lparr>shard_id = 1, active_requests = 1, total_requests = tb,
       avg_latency_ms = Finite False m, error_count = eb\<rparr>,
      \<lparr>shard_id = 2, active_requests = 2, total_requests = tc,
       avg_latency_ms = Finite False m, error_count = ec\<rparr>,
      \<lparr>shard_id = 3, active_requests = 0, total_requests = td,
       avg_latency_ms = Finite False m, error_count = ed\<rparr>] = 3"
proof -
  have "(2::rat) ^ 50 = 8 * 2 ^ 47" by simp
  with assms(2) have "m / 10 \<le> 2 ^ 47" by simp
  then have "m / 10 \<le> 2 powi 47" by simp
  moreover from assms(1) have "0 \<le> m / 10" by simp
  ultimately have "\<exists>v. round_double False (m / 10) = Finite False v \<and> 0 \<le> v \<and> v \<le> 2 powi 47"
    by (intro round_double_bound) simp_all
  then obtain v where v: "fdiv (Finite False m) (double_literal 10) = Finite False v"
    "0 \<le> v" "v \<le> 2 powi 47"
    by (auto simp: double_literal_10)
  from score_near [OF v(2,3), of 3] obtain x3 where
    x3: "fadd (of_uint64 3) (Finite False v) = Finite False x3" "\<bar>x3 - (3 + v)\<bar> \<le> 1 / 8"
    by auto
  from score_near [OF v(2,3), of 1] obtain x1 where
    x1: "fadd (of_uint64 1) (Finite False v) = Finite False x1" "\<bar>x1 - (1 + v)\<bar> \<le> 1 / 8"
    by auto
  from score_near [OF v(2,3), of 2] obtain x2 where
    x2: "fadd (of_uint64 2) (Finite False v) = Finite False x2" "\<bar>x2 - (2 + v)\<bar> \<le> 1 / 8"
    by auto
  from score_near [OF v(2,3), of 0] obtain x0 where
    x0: "fadd (of_uint64 0) (Finite False v) = Finite False x0" "\<bar>x0 - v\<bar> \<le> 1 / 8"
    by auto
  have "v \<le> 2 ^ 47" using v(3) by simp
  moreover from x3(2) have "x3 \<le> 3 + v + 1 / 8" by linarith
  ultimately have "x3 < 2 ^ 47 + 4" by linarith
  moreover have "(2::rat) ^ 47 + 4 < (2 ^ 53 - 1) * 2 ^ 971" by simp
  ultimately have a: "x3 < (2 ^ 53 - 1) * 2 ^ 971" by linarith
  from x1(2) x3(2) have b: "x1 < x3" by linarith
  from x1(2) x2(2) have c: "\<not> x2 < x1" by linarith
  from x1(2) x0(2) have d: "x0 < x1" by linarith
  have s3: "score \<lparr>shard_id = 0, active_requests = 3, total_requests = ta,
       avg_latency_ms = Finite False m, error_count = ea\<rparr> = Finite False x3"
    and s1: "score \<lparr>shard_id = 1, active_requests = 1, total_requests = tb,
       avg_latency_ms = Finite False m, error_count = eb\<rparr> = Finite False x1"
    and s2: "score \<lparr>shard_id = 2, active_requests = 2, total_requests = tc,
       avg_latency_ms = Finite False m, error_count = ec\<rparr> = Finite False x2"
    and s0: "score \<lparr>shard_id = 3, active_requests = 0, total_requests = td,
       avg_latency_ms = Finite False m, error_count = ed\<rparr> = Finite False x0"
    by (simp_all add: score_def v(1) x3(1) x1(1) x2(1) x0(1) del: fadd.simps)
  show ?thesis
    by (simp add: select_shard_def DBL_MAX_def s3 s1 s2 s0 a [simplified] b c d
        del: One_nat_def)
qed

lemma double_literal_9_10:
  "double_literal (9 / 10) = Finite False (8106479329266893 / 2 ^ 53)"
  unfolding double_literal_def
  using round_double_eqI [of "- 1" "9 / 10" 8106479329266893 "8106479329266893 / 2 ^ 53" False]
  by (simp add: round_half_even_def Let_def power_int_minus_divide)

lemma double_literal_1_10:
  "double_literal (1 / 10) = Finite False (3602879701896397 / 2 ^ 55)"
  unfolding double_literal_def
  using round_double_eqI [of "- 4" "1 / 10" 7205759403792794 "3602879701896397 / 2 ^ 55" False]
  by (simp add: round_half_even_def Let_def power_int_minus_divide)

lemma fmul_10_literal:
  "fmul (Finite False 10) (double_literal (9 / 10)) = Finite False 9"
  unfolding double_literal_9_10
  using round_double_eqI [of 3 "10 * (8106479329266893 / 2 ^ 53)" 5066549580791808 9 False]
  by (simp add: round_half_even_def Let_def power_int_minus_divide)

lemma fmul_20_literal:
  "fmul (Finite False 20) (double_literal (1 / 10)) = Finite False 2"
  unfolding double_literal_1_10
  using round_double_eqI [of 1 "20 * (3602879701896397 / 2 ^ 55)" 4503599627370496 2 False]
  by (simp add: round_half_even_def Let_def power_int_minus_divide)

lemma fmul_3_literal:
  "fmul (Finite False 3) (double_literal (1 / 10)) = Finite False (5404319552844596 / 2 ^ 54)"
  unfolding double_literal_1_10
  using round_double_eqI [of "- 2" "3 * (3602879701896397 / 2 ^ 55)" 5404319552844596
      "5404319552844596 / 2 ^ 54" False]
  by (simp add: round_half_even_def Let_def power_int_minus_divide)

lemma fmul_0_literal: "fmul (Finite False 0) (double_literal (9 / 10)) = Finite False 0"
  unfolding double_literal_9_10 by (simp add: round_double_zero)

lemma fmul_0_literal': "fmul (Finite False 0) (double_literal (1 / 10)) = Finite False 0"
  unfolding double_literal_1_10 by (simp add: round_double_zero)

lemma double_literal_3_10:
  "double_literal (3 / 10) = Finite False (5404319552844595 / 2 ^ 54)"
  unfolding double_literal_def
  using round_double_eqI [of "- 2" "3 / 10" 5404319552844595 "5404319552844595 / 2 ^ 54" False]
  by (simp add: round_half_even_def Let_def power_int_minus_divide)

lemma round_double_3_10_up:
  "round_double s (1351079888211149 / 4503599627370496)
     = Finite s (1351079888211149 / 4503599627370496)"
  using round_double_exact [of 1351079888211149 "- 52" s]
  by (simp add: power_int_minus_divide)

lemma uint_minus_1: "uint (- 1 :: 64 word) = 18446744073709551615"
  by (simp add: unsigned_minus_1_eq_mask mask_eq_exp_minus_1)

lemma uint_minus_2: "uint (- 2 :: 64 word) = 18446744073709551614"
  by (simp add: uint_word_ariths take_bit_eq_mod)

lemma of_uint64_minus_1: "of_uint64 (- 1) = Finite False (2 ^ 64)"
  unfolding of_uint64_def uint_minus_1
  using round_double_eqI [of 63 18446744073709551615 "2 ^ 53" "2 ^ 64" False]
  by (simp add: round_half_even_def Let_def power_int_minus_divide)

lemma of_uint64_minus_2: "of_uint64 (- 2) = Finite False (2 ^ 64)"
  unfolding of_uint64_def uint_minus_2
  using round_double_eqI [of 63 18446744073709551614 "2 ^ 53" "2 ^ 64" False]
  by (simp add: round_half_even_def Let_def power_int_minus_divide)

lemma round_double_2_64: "round_double s (2 ^ 64) = Finite s (2 ^ 64)"
  using round_double_exact [of 1 64 s] by simp

lemma fdiv_2_60:
  "fdiv (Finite False 1152921504606846976) (double_literal 10) = Finite False 115292150460684704"
  unfolding double_literal_10
  using round_double_eqI [of 56 "1152921504606846976 / 10" 7205759403792794 115292150460684704
      False]
  by (simp add: round_half_even_def Let_def power_int_minus_divide)

lemma round_double_absorbs:
  "round_double False 115292150460684704 = Finite False 115292150460684704"
  "round_double False 115292150460684705 = Finite False 115292150460684704"
  "round_double False 115292150460684706 = Finite False 115292150460684704"
  "round_double False 115292150460684707 = Finite False 115292150460684704"
  using round_double_eqI [of 56 115292150460684704 7205759403792794 115292150460684704 False]
    round_double_eqI [of 56 115292150460684705 7205759403792794 115292150460684704 False]
    round_double_eqI [of 56 115292150460684706 7205759403792794 115292150460684704 False]
    round_double_eqI [of 56 115292150460684707 7205759403792794 115292150460684704 False]
  by (simp_all add: round_half_even_def Let_def power_int_minus_divide)

text \<open>
  C6 (amended). On a balancer with at least one shard, no average latency NaN,
  \<^verbatim>\<open>select_shard\<close> returns the index of a shard whose score, as the code computes it in
  \<^verbatim>\<open>double\<close> arithmetic (\<^verbatim>\<open>active_requests\<close> converted to \<^verbatim>\<open>double\<close>, plus
  \<^verbatim>\<open>avg_latency_ms / 10.0\<close>), is least: no shard has a smaller score, and every shard of
  lower index has a strictly greater one. With active requests 3, 1, 2, 0 and one latency
  between 0 and \<open>2 ^ 50\<close> for all four shards it returns 3.
\<close>

theorem select_shard_least_score:
  "(shards \<noteq> [] \<and> balancer_wf shards \<longrightarrow>
      select_shard shards < length shards \<and>
      (\<forall>j < length shards.
         \<not> flt (fadd (of_uint64 (active_requests (shards ! j)))
                     (fdiv (avg_latency_ms (shards ! j)) (double_literal 10)))
                (fadd (of_uint64 (active_requests (shards ! select_shard shards)))
                     (fdiv (avg_latency_ms (shards ! select_shard shards)) (double_literal 10)))) \<and>
      (\<forall>j < select_shard shards.
         flt (fadd (of_uint64 (active_requests (shards ! select_shard shards)))
                   (fdiv (avg_latency_ms (shards ! select_shard shards)) (double_literal 10)))
             (fadd (of_uint64 (active_requests (shards ! j)))
                   (fdiv (avg_latency_ms (shards ! j)) (double_literal 10))))) \<and>
   (0 \<le> m \<and> m \<le> 2 ^ 50 \<longrightarrow>
      select_shard
        [\<lparr>shard_id = 0, active_requests = 3, total_requests = ta,
          avg_latency_ms = Finite False m, error_count = ea\<rparr>,
         \<lparr>shard_id = 1, active_requests = 1, total_requests = tb,
          avg_latency_ms = Finite False m, error_count = eb\<rparr>,
         \<lparr>shard_id = 2, active_requests = 2, total_requests = tc,
          avg_latency_ms = Finite False m, error_count = ec\<rparr>,
         \<lparr>shard_id = 3, active_requests = 0, total_requests = td,
          avg_latency_ms = Finite False m, error_count = ed\<rparr>] = 3)"
  using select_shard_minimal [of shards] select_shard_example [of m ta ea tb eb tc ec td ed]
  unfolding score_def by blast

theorem select_shard_least_score_witness:
  "[\<lparr>shard_id = 0, active_requests = 1, total_requests = 7, avg_latency_ms = Finite False 5,
      error_count = 0\<rparr>,
    \<lparr>shard_id = 1, active_requests = 1, total_requests = 7, avg_latency_ms = Finite False 0,
      error_count = 0\<rparr>,
    \<lparr>shard_id = 2, active_requests = 0, total_requests = 7, avg_latency_ms = Finite False 30,
      error_count = 0\<rparr>] \<noteq> [] \<and>
   balancer_wf
    [\<lparr>shard_id = 0, active_requests = 1, total_requests = 7, avg_latency_ms = Finite False 5,
       error_count = 0\<rparr>,
     \<lparr>shard_id = 1, active_requests = 1, total_requests = 7, avg_latency_ms = Finite False 0,
       error_count = 0\<rparr>,
     \<lparr>shard_id = 2, active_requests = 0, total_requests = 7, avg_latency_ms = Finite False 30,
       error_count = 0\<rparr>] \<and>
   select_shard
    [\<lparr>shard_id = 0, active_requests = 1, total_requests = 7, avg_latency_ms = Finite False 5,
       error_count = 0\<rparr>,
     \<lparr>shard_id = 1, active_requests = 1, total_requests = 7, avg_latency_ms = Finite False 0,
       error_count = 0\<rparr>,
     \<lparr>shard_id = 2, active_requests = 0, total_requests = 7, avg_latency_ms = Finite False 30,
       error_count = 0\<rparr>] = 1 \<and>
   (0::rat) \<le> 5 \<and> (5::rat) \<le> 2 ^ 50 \<and>
   select_shard
    [\<lparr>shard_id = 0, active_requests = 3, total_requests = 7, avg_latency_ms = Finite False 5,
       error_count = 0\<rparr>,
     \<lparr>shard_id = 1, active_requests = 1, total_requests = 7, avg_latency_ms = Finite False 5,
       error_count = 0\<rparr>,
     \<lparr>shard_id = 2, active_requests = 2, total_requests = 7, avg_latency_ms = Finite False 5,
       error_count = 0\<rparr>,
     \<lparr>shard_id = 3, active_requests = 0, total_requests = 7, avg_latency_ms = Finite False 5,
       error_count = 0\<rparr>] = 3"
  (is "?B \<noteq> [] \<and> _ \<and> _ \<and> _ \<and> _ \<and> select_shard ?A = 3")
proof -
  note ev = select_shard_def score_def DBL_MAX_def double_literal_10 of_uint64_small
    round_double_numeral round_double_half round_double_one_half round_double_one
    round_double_zero
  have neB: "?B \<noteq> []" by simp
  have wfB: "balancer_wf ?B" by (simp add: balancer_wf_def nth_Cons')
  have selB: "select_shard ?B = 1" by (simp add: ev)
  have m: "(0::rat) \<le> 5 \<and> (5::rat) \<le> 2 ^ 50" by simp
  note inst = select_shard_least_score [where shards = "?B" and m = 5 and ta = 7 and tb = 7
      and tc = 7 and td = 7 and ea = 0 and eb = 0 and ec = 0 and ed = 0]
  from inst neB wfB have "select_shard ?B < length ?B" by blast
  moreover from inst m have "select_shard ?A = 3" by blast
  ultimately show ?thesis using neB wfB selB m by blast
qed

text \<open>
  C6 as claimed, for every state and all equal latencies: with active requests 3, 1, 2, 0
  and the latency \<open>2 ^ 60\<close> on all four shards, \<^verbatim>\<open>latency / 10.0\<close> is a double whose last
  place is worth 16, the sum with a count of at most 3 rounds back to it, and the four
  scores are one and the same double. No score is below the first, and \<^verbatim>\<open>select_shard\<close>
  returns 0 and not 3, the shard that has no active request.
\<close>

theorem select_shard_counts_absorbed:
  "balancer_wf
    [\<lparr>shard_id = 0, active_requests = 3, total_requests = 7,
       avg_latency_ms = Finite False (2 ^ 60), error_count = 0\<rparr>,
     \<lparr>shard_id = 1, active_requests = 1, total_requests = 7,
       avg_latency_ms = Finite False (2 ^ 60), error_count = 0\<rparr>,
     \<lparr>shard_id = 2, active_requests = 2, total_requests = 7,
       avg_latency_ms = Finite False (2 ^ 60), error_count = 0\<rparr>,
     \<lparr>shard_id = 3, active_requests = 0, total_requests = 7,
       avg_latency_ms = Finite False (2 ^ 60), error_count = 0\<rparr>] \<and>
   select_shard
    [\<lparr>shard_id = 0, active_requests = 3, total_requests = 7,
       avg_latency_ms = Finite False (2 ^ 60), error_count = 0\<rparr>,
     \<lparr>shard_id = 1, active_requests = 1, total_requests = 7,
       avg_latency_ms = Finite False (2 ^ 60), error_count = 0\<rparr>,
     \<lparr>shard_id = 2, active_requests = 2, total_requests = 7,
       avg_latency_ms = Finite False (2 ^ 60), error_count = 0\<rparr>,
     \<lparr>shard_id = 3, active_requests = 0, total_requests = 7,
       avg_latency_ms = Finite False (2 ^ 60), error_count = 0\<rparr>] = 0 \<and>
   map score
    [\<lparr>shard_id = 0, active_requests = 3, total_requests = 7,
       avg_latency_ms = Finite False (2 ^ 60), error_count = 0\<rparr>,
     \<lparr>shard_id = 1, active_requests = 1, total_requests = 7,
       avg_latency_ms = Finite False (2 ^ 60), error_count = 0\<rparr>,
     \<lparr>shard_id = 2, active_requests = 2, total_requests = 7,
       avg_latency_ms = Finite False (2 ^ 60), error_count = 0\<rparr>,
     \<lparr>shard_id = 3, active_requests = 0, total_requests = 7,
       avg_latency_ms = Finite False (2 ^ 60), error_count = 0\<rparr>]
    = [Finite False 115292150460684704, Finite False 115292150460684704,
       Finite False 115292150460684704, Finite False 115292150460684704]"
proof -
  have sc: "score \<lparr>shard_id = i, active_requests = 3, total_requests = 7,
       avg_latency_ms = Finite False (2 ^ 60), error_count = 0\<rparr> = Finite False 115292150460684704"
    "score \<lparr>shard_id = i, active_requests = 1, total_requests = 7,
       avg_latency_ms = Finite False (2 ^ 60), error_count = 0\<rparr> = Finite False 115292150460684704"
    "score \<lparr>shard_id = i, active_requests = 2, total_requests = 7,
       avg_latency_ms = Finite False (2 ^ 60), error_count = 0\<rparr> = Finite False 115292150460684704"
    "score \<lparr>shard_id = i, active_requests = 0, total_requests = 7,
       avg_latency_ms = Finite False (2 ^ 60), error_count = 0\<rparr> = Finite False 115292150460684704"
    for i
    by (simp_all add: score_def fdiv_2_60 of_uint64_small round_double_absorbs)
  show ?thesis
    by (simp add: balancer_wf_def nth_Cons' select_shard_def DBL_MAX_def sc [simplified]
        del: One_nat_def)
qed

text \<open>
  The conversion of the counter rounds as well. Three calls of \<^verbatim>\<open>record_request_end\<close> on
  a new balancer of two shards, none preceded by \<^verbatim>\<open>record_request_start\<close>, wrap the
  counters to \<open>2 ^ 64 - 1\<close> and \<open>2 ^ 64 - 2\<close>; both convert to the double \<open>2 ^ 64\<close>, the scores
  tie, and \<^verbatim>\<open>select_shard\<close> returns 0 although shard 1 has the smaller counter.
\<close>

lemma select_shard_after_unmatched_ends:
  "record_request_end 0 (Finite False 0) True (AdaptiveLoadBalancer_init 2)
     = Inr [\<lparr>shard_id = 0, active_requests = - 1, total_requests = 0,
             avg_latency_ms = Finite False 0, error_count = 0\<rparr>,
            \<lparr>shard_id = 1, active_requests = 0, total_requests = 0,
             avg_latency_ms = Finite False 0, error_count = 0\<rparr>] \<and>
   record_request_end 1 (Finite False 0) True
       [\<lparr>shard_id = 0, active_requests = - 1, total_requests = 0,
         avg_latency_ms = Finite False 0, error_count = 0\<rparr>,
        \<lparr>shard_id = 1, active_requests = 0, total_requests = 0,
         avg_latency_ms = Finite False 0, error_count = 0\<rparr>]
     = Inr [\<lparr>shard_id = 0, active_requests = - 1, total_requests = 0,
             avg_latency_ms = Finite False 0, error_count = 0\<rparr>,
            \<lparr>shard_id = 1, active_requests = - 1, total_requests = 0,
             avg_latency_ms = Finite False 0, error_count = 0\<rparr>] \<and>
   record_request_end 1 (Finite False 0) True
       [\<lparr>shard_id = 0, active_requests = - 1, total_requests = 0,
         avg_latency_ms = Finite False 0, error_count = 0\<rparr>,
        \<lparr>shard_id = 1, active_requests = - 1, total_requests = 0,
         avg_latency_ms = Finite False 0, error_count = 0\<rparr>]
     = Inr [\<lparr>shard_id = 0, active_requests = - 1, total_requests = 0,
             avg_latency_ms = Finite False 0, error_count = 0\<rparr>,
            \<lparr>shard_id = 1, active_requests = - 2, total_requests = 0,
             avg_latency_ms = Finite False 0, error_count = 0\<rparr>] \<and>
   select_shard
       [\<lparr>shard_id = 0, active_requests = - 1, total_requests = 0,
         avg_latency_ms = Finite False 0, error_count = 0\<rparr>,
        \<lparr>shard_id = 1, active_requests = - 2, total_requests = 0,
         avg_latency_ms = Finite False 0, error_count = 0\<rparr>] = 0 \<and>
   uint (- 2 :: 64 word) < uint (- 1 :: 64 word)"
proof -
  have init: "AdaptiveLoadBalancer_init 2
     = [\<lparr>shard_id = 0, active_requests = 0, total_requests = 0,
         avg_latency_ms = Finite False 0, error_count = 0\<rparr>,
        \<lparr>shard_id = 1, active_requests = 0, total_requests = 0,
         avg_latency_ms = Finite False 0, error_count = 0\<rparr>]"
    by (simp add: AdaptiveLoadBalancer_init_def upt_rec)
  show ?thesis
    unfolding init
    by (simp add: record_request_end_def Let_def fmul_0_literal fmul_0_literal'
        select_shard_def score_def DBL_MAX_def double_literal_10 of_uint64_minus_1
        of_uint64_minus_2 round_double_zero round_double_2_64 [simplified]
        uint_minus_1 uint_minus_2)
qed

text \<open>
  C7. For a shard index in range, every prior average and every latency (infinities and
  NaN included), \<^verbatim>\<open>record_request_end\<close> sets that shard's average latency to
  \<open>0.9 * old + 0.1 * latency_ms\<close>, evaluated in \<^verbatim>\<open>double\<close> arithmetic (the literals are the
  doubles nearest to 0.9 and 0.1; each product and the sum is rounded), decrements its
  \<^verbatim>\<open>active_requests\<close> by one (modulo \<open>2 ^ 64\<close>; by one exactly when a request was active), adds
  one to \<^verbatim>\<open>error_count\<close> exactly when \<open>success\<close> is false, and changes nothing else. From an
  average of 10.0, a latency of 20.0 gives exactly 11.0.
\<close>

theorem record_request_end_updates:
  assumes "i < length shards"
  shows "\<exists>shards'. record_request_end i latency_ms success shards = Inr shards' \<and>
     length shards' = length shards \<and>
     avg_latency_ms (shards' ! i)
       = fadd (fmul (double_literal (9 / 10)) (avg_latency_ms (shards ! i)))
              (fmul (double_literal (1 / 10)) latency_ms) \<and>
     active_requests (shards' ! i) = active_requests (shards ! i) - 1 \<and>
     (0 < active_requests (shards ! i) \<longrightarrow>
        unat (active_requests (shards' ! i)) + 1 = unat (active_requests (shards ! i))) \<and>
     error_count (shards' ! i) = error_count (shards ! i) + (if success then 0 else 1) \<and>
     total_requests (shards' ! i) = total_requests (shards ! i) \<and>
     shard_id (shards' ! i) = shard_id (shards ! i) \<and>
     (\<forall>j < length shards. j \<noteq> i \<longrightarrow> shards' ! j = shards ! j)"
proof -
  have dec: "unat (a - 1) + 1 = unat a" if "0 < a" for a :: "64 word"
    using that by (metis Suc_eq_plus1 add_diff_cancel_left' diff_add_cancel unatSuc word_neq_0_conv)
  show ?thesis
    using assms dec [of "active_requests (shards ! i)"]
    by (simp add: record_request_end_def Let_def fmul_commute)
qed

theorem record_request_end_updates_witness:
  "(0::nat) <
     length [\<lparr>shard_id = 0, active_requests = 1, total_requests = 1,
              avg_latency_ms = Finite False 10, error_count = 0\<rparr>] \<and>
   record_request_end 0 (Finite False 20) True
     [\<lparr>shard_id = 0, active_requests = 1, total_requests = 1,
       avg_latency_ms = Finite False 10, error_count = 0\<rparr>]
   = Inr [\<lparr>shard_id = 0, active_requests = 0, total_requests = 1,
           avg_latency_ms = Finite False 11, error_count = 0\<rparr>] \<and>
   (\<exists>shards'. record_request_end 0 (Finite False 20) True
       [\<lparr>shard_id = 0, active_requests = 1, total_requests = 1,
         avg_latency_ms = Finite False 10, error_count = 0\<rparr>] = Inr shards' \<and>
     avg_latency_ms (shards' ! 0)
       = fadd (fmul (double_literal (9 / 10)) (Finite False 10))
              (fmul (double_literal (1 / 10)) (Finite False 20)) \<and>
     avg_latency_ms (shards' ! 0) = Finite False 11)"
  (is "0 < length ?B \<and> _ \<and> _")
proof -
  have len: "0 < length ?B" by simp
  have run: "record_request_end 0 (Finite False 20) True ?B
    = Inr [\<lparr>shard_id = 0, active_requests = 0, total_requests = 1,
           avg_latency_ms = Finite False 11, error_count = 0\<rparr>]"
    by (simp add: record_request_end_def Let_def fmul_10_literal fmul_20_literal
        round_double_numeral)
  from record_request_end_updates [OF len, of "Finite False 20" True] obtain shards' where
    s: "record_request_end 0 (Finite False 20) True ?B = Inr shards'"
    "avg_latency_ms (shards' ! 0)
       = fadd (fmul (double_literal (9 / 10)) (avg_latency_ms (?B ! 0)))
              (fmul (double_literal (1 / 10)) (Finite False 20))"
    by blast
  from s(1) run have "shards' = [\<lparr>shard_id = 0, active_requests = 0, total_requests = 1,
           avg_latency_ms = Finite False 11, error_count = 0\<rparr>]" by simp
  then have "avg_latency_ms (shards' ! 0) = Finite False 11" by simp
  with s have "\<exists>shards'. record_request_end 0 (Finite False 20) True ?B = Inr shards' \<and>
     avg_latency_ms (shards' ! 0)
       = fadd (fmul (double_literal (9 / 10)) (Finite False 10))
              (fmul (double_literal (1 / 10)) (Finite False 20)) \<and>
     avg_latency_ms (shards' ! 0) = Finite False 11"
    by (intro exI [of _ shards']) simp
  with len run show ?thesis by blast
qed

text \<open>
  The value stored is the rounded one: from an average of 0, a latency of 3 gives
  \<open>5404319552844596 / 2 ^ 54\<close> (\<^verbatim>\<open>0x1.3333333333334p-2\<close>), the double above the one nearest
  to \<open>3 / 10\<close>.
\<close>

lemma record_request_end_rounds:
  "record_request_end 0 (Finite False 3) True
     [\<lparr>shard_id = 0, active_requests = 1, total_requests = 1,
       avg_latency_ms = Finite False 0, error_count = 0\<rparr>]
   = Inr [\<lparr>shard_id = 0, active_requests = 0, total_requests = 1,
           avg_latency_ms = Finite False (5404319552844596 / 2 ^ 54), error_count = 0\<rparr>] \<and>
   double_literal (3 / 10) = Finite False (5404319552844595 / 2 ^ 54)"
  by (simp add: record_request_end_def Let_def fmul_0_literal fmul_3_literal
      round_double_3_10_up double_literal_3_10)

section \<open>CheckpointManager (advanced\_distributed.cpp)\<close>

text \<open>
  Checkpoint ids are \<^verbatim>\<open>uint64_t\<close> values (natural numbers, the increment reduced by
  \<open>u64\<close>). The manager does not own the shard or the file store: one call of
  \<^verbatim>\<open>create_checkpoint\<close> receives a \<open>shard_reply\<close>, what \<^verbatim>\<open>shard_->save(path)\<close>,
  \<^verbatim>\<open>shard_->size()\<close> and the system clock answer during that call, and the file store is the
  set of paths of the files that exist, passed along with the manager. A successful save
  leaves a file at its path; \<^verbatim>\<open>std::filesystem::remove\<close> takes the path out of the set.
  \<^verbatim>\<open>std::to_string\<close> on an unsigned integer is its decimal notation.
\<close>

definition digit_char :: "nat \<Rightarrow> char" where
  "digit_char n = char_of (48 + n)"

function to_string :: "nat \<Rightarrow> string" where
  "to_string n = (if n < 10 then [digit_char n] else to_string (n div 10) @ [digit_char (n mod 10)])"
  by pat_completeness auto
termination
  by (relation "measure id") auto

declare to_string.simps [simp del]

record Checkpoint =
  cp_id :: nat
  path :: string
  timestamp :: int
  num_vectors :: nat

record CheckpointManager =
  checkpoint_dir :: string
  max_checkpoints :: nat
  checkpoints :: "Checkpoint list"

record shard_reply =
  save_succeeds :: bool
  shard_size :: nat
  clock :: int

definition CheckpointManager_init :: "string \<Rightarrow> nat \<Rightarrow> CheckpointManager" where
  "CheckpointManager_init dir max_cp =
     \<lparr>checkpoint_dir = dir, max_checkpoints = max_cp, checkpoints = []\<rparr>"

fun cleanup_old :: "nat \<Rightarrow> Checkpoint list \<Rightarrow> string set \<Rightarrow> Checkpoint list \<times> string set" where
  "cleanup_old max_cp [] fs = ([], fs)"
| "cleanup_old max_cp (oldest # rest) fs =
     (if length (oldest # rest) > max_cp then cleanup_old max_cp rest (fs - {path oldest})
      else (oldest # rest, fs))"

definition checkpoint_path :: "string \<Rightarrow> nat \<Rightarrow> string" where
  "checkpoint_path dir n = dir @ ''/checkpoint_'' @ to_string n @ ''.usearch''"

definition create_checkpoint ::
  "shard_reply \<Rightarrow> CheckpointManager \<times> string set \<Rightarrow>
   error + Checkpoint \<times> CheckpointManager \<times> string set" where
  "create_checkpoint reply state =
     (let (m, fs) = state;
          n = (if checkpoints m = [] then 1 else u64 (cp_id (last (checkpoints m)) + 1));
          p = checkpoint_path (checkpoint_dir m) n
      in if save_succeeds reply then
           let cp = \<lparr>cp_id = n, path = p, timestamp = clock reply,
                     num_vectors = shard_size reply\<rparr>;
               (cps, fs') = cleanup_old (max_checkpoints m) (checkpoints m @ [cp]) (insert p fs)
           in Inr (cp, m\<lparr>checkpoints := cps\<rparr>, fs')
         else Inl (runtime_error ''Failed to create checkpoint''))"

fun create_many ::
  "shard_reply list \<Rightarrow> CheckpointManager \<times> string set \<Rightarrow>
   Checkpoint list \<times> CheckpointManager \<times> string set" where
  "create_many [] state = ([], state)"
| "create_many (reply # replies) state =
     (case create_checkpoint reply state of
        Inl e \<Rightarrow> create_many replies state
      | Inr (cp, state') \<Rightarrow>
          (let (cps, state'') = create_many replies state' in (cp # cps, state'')))"

definition saved :: "nat \<Rightarrow> int \<Rightarrow> shard_reply" where
  \<comment> \<open>The reply of a shard of \<open>n\<close> vectors whose save succeeds, at clock reading \<open>t\<close>.\<close>
  "saved n t = \<lparr>save_succeeds = True, shard_size = n, clock = t\<rparr>"

lemma digit_char_inj: "a < 10 \<Longrightarrow> b < 10 \<Longrightarrow> digit_char a = digit_char b \<Longrightarrow> a = b"
  by (simp add: digit_char_def char_of_eq_iff take_bit_eq_mod)

lemma to_string_nonempty: "to_string n \<noteq> []"
  by (subst to_string.simps) simp

lemma to_string_inj: "to_string a = to_string b \<Longrightarrow> a = b"
proof (induction a arbitrary: b rule: to_string.induct)
  case (1 a)
  show ?case
  proof (cases "a < 10")
    case True
    then have a: "to_string a = [digit_char a]" by (subst to_string.simps) simp
    show ?thesis
    proof (cases "b < 10")
      case b: True
      then have "to_string b = [digit_char b]" by (subst to_string.simps) simp
      with a "1.prems" True b show ?thesis by (simp add: digit_char_inj)
    next
      case False
      then have "to_string b = to_string (b div 10) @ [digit_char (b mod 10)]"
        by (subst to_string.simps) simp
      with a "1.prems" to_string_nonempty [of "b div 10"] show ?thesis by simp
    qed
  next
    case False
    then have a: "to_string a = to_string (a div 10) @ [digit_char (a mod 10)]"
      by (subst to_string.simps) simp
    show ?thesis
    proof (cases "b < 10")
      case True
      then have "to_string b = [digit_char b]" by (subst to_string.simps) simp
      with a "1.prems" to_string_nonempty [of "a div 10"] show ?thesis by simp
    next
      case b: False
      then have "to_string b = to_string (b div 10) @ [digit_char (b mod 10)]"
        by (subst to_string.simps) simp
      with a "1.prems" have eq: "to_string (a div 10) = to_string (b div 10)"
        "digit_char (a mod 10) = digit_char (b mod 10)" by simp_all
      from "1.IH" [OF False eq(1)] have "a div 10 = b div 10" .
      moreover from eq(2) have "a mod 10 = b mod 10" by (simp add: digit_char_inj)
      ultimately show ?thesis by (metis div_mult_mod_eq)
    qed
  qed
qed

lemma checkpoint_path_inj: "checkpoint_path dir a = checkpoint_path dir b \<Longrightarrow> a = b"
  by (simp add: checkpoint_path_def to_string_inj)

lemma cleanup_old_eq:
  "cleanup_old max_cp cps fs =
     (drop (length cps - max_cp) cps, fs - path ` set (take (length cps - max_cp) cps))"
proof (induction cps arbitrary: fs)
  case Nil
  then show ?case by simp
next
  case (Cons c cps)
  show ?case
  proof (cases "length (c # cps) > max_cp")
    case True
    then have "length (c # cps) - max_cp = Suc (length cps - max_cp)" by simp
    with True Cons.IH [of "fs - {path c}"] show ?thesis by auto
  next
    case False
    then show ?thesis by simp
  qed
qed

lemma to_string_digits:
  "to_string (Suc 0) = ''1''" "to_string (Suc (Suc 0)) = ''2''"
  "to_string 1 = ''1''" "to_string 2 = ''2''" "to_string 3 = ''3''"
  by code_simp+

definition cp_inv :: "string \<Rightarrow> nat \<Rightarrow> nat \<Rightarrow> CheckpointManager \<times> string set \<Rightarrow> bool" where
  "cp_inv dir max_cp n state \<longleftrightarrow>
     (let (m, fs) = state
      in checkpoint_dir m = dir \<and> max_checkpoints m = max_cp \<and>
         map cp_id (checkpoints m) = [Suc (n - min n max_cp)..<Suc n] \<and>
         (\<forall>c \<in> set (checkpoints m). path c = checkpoint_path dir (cp_id c)) \<and>
         (\<forall>i. 1 \<le> i \<and> i \<le> n - max_cp \<longrightarrow> checkpoint_path dir i \<notin> fs) \<and>
         (\<forall>i. n - max_cp < i \<and> i \<le> n \<longrightarrow> checkpoint_path dir i \<in> fs))"

lemma cp_inv_init: "cp_inv dir max_cp 0 (CheckpointManager_init dir max_cp, fs)"
  by (simp add: cp_inv_def CheckpointManager_init_def)

lemma create_checkpoint_fails:
  "\<not> save_succeeds reply \<Longrightarrow>
     create_checkpoint reply state = Inl (runtime_error ''Failed to create checkpoint'')"
  by (simp add: create_checkpoint_def Let_def split: prod.splits)

lemma create_checkpoint_Inr:
  "create_checkpoint reply state = Inr r \<Longrightarrow> save_succeeds reply"
  by (auto simp: create_checkpoint_def Let_def split: prod.splits if_splits)

lemma create_checkpoint_step:
  assumes inv: "cp_inv dir max_cp n (m, fs)" and max_cp: "1 \<le> max_cp"
    and n: "Suc n < 2 ^ 64"
    and run: "create_checkpoint reply (m, fs) = Inr (cp, m', fs')"
  shows "cp_id cp = Suc n \<and> path cp = checkpoint_path dir (Suc n) \<and>
         cp_inv dir max_cp (Suc n) (m', fs')"
proof -
  from inv have dir: "checkpoint_dir m = dir" and mx: "max_checkpoints m = max_cp"
    and ids: "map cp_id (checkpoints m) = [Suc (n - min n max_cp)..<Suc n]"
    and paths: "\<forall>c \<in> set (checkpoints m). path c = checkpoint_path dir (cp_id c)"
    and gone: "\<forall>i. 1 \<le> i \<and> i \<le> n - max_cp \<longrightarrow> checkpoint_path dir i \<notin> fs"
    and kept: "\<forall>i. n - max_cp < i \<and> i \<le> n \<longrightarrow> checkpoint_path dir i \<in> fs"
    by (simp_all add: cp_inv_def)
  from ids have len: "length (checkpoints m) = min n max_cp"
    by (metis length_map length_upt diff_Suc_Suc diff_diff_cancel min.cobounded1)
  define new_id where "new_id = (if checkpoints m = [] then 1 else u64 (cp_id (last (checkpoints m)) + 1))"
  have new_id: "new_id = Suc n"
  proof (cases "checkpoints m = []")
    case True
    with len max_cp have "n = 0" by (simp add: min_def split: if_splits)
    with True show ?thesis by (simp add: new_id_def)
  next
    case False
    then have "cp_id (last (checkpoints m)) = last (map cp_id (checkpoints m))"
      by (simp add: last_map)
    also have "\<dots> = n"
      using False ids by (metis Nil_is_map_conv last_upt upt_eq_Nil_conv diff_Suc_1 not_le)
    finally have "cp_id (last (checkpoints m)) = n" .
    with False n show ?thesis by (simp add: new_id_def u64_def)
  qed
  define c where "c = \<lparr>cp_id = Suc n, path = checkpoint_path dir (Suc n), timestamp = clock reply,
      num_vectors = shard_size reply\<rparr>"
  define L where "L = checkpoints m @ [c]"
  from run have ok: "save_succeeds reply" by (rule create_checkpoint_Inr)
  have "create_checkpoint reply (m, fs) =
      Inr (c, m\<lparr>checkpoints := drop (length L - max_cp) L\<rparr>,
           insert (checkpoint_path dir (Suc n)) fs - path ` set (take (length L - max_cp) L))"
    using ok new_id
    by (simp add: create_checkpoint_def Let_def cleanup_old_eq dir mx c_def L_def
        new_id_def [symmetric])
  with run have res: "cp = c"
    "m' = m\<lparr>checkpoints := drop (length L - max_cp) L\<rparr>"
    "fs' = insert (checkpoint_path dir (Suc n)) fs - path ` set (take (length L - max_cp) L)"
    by simp_all
  have L_ids: "map cp_id L = [Suc (n - min n max_cp)..<Suc (Suc n)]"
    using ids by (simp add: L_def c_def)
  have L_paths: "\<forall>x \<in> set L. path x = checkpoint_path dir (cp_id x)"
    using paths by (simp add: L_def c_def)
  have L_len: "length L = Suc (min n max_cp)" using len by (simp add: L_def)
  show ?thesis
  proof (cases "max_cp \<le> n")
    case True
    then have d: "length L - max_cp = 1" using L_len by simp
    from True max_cp L_len obtain x rest where L: "L = x # rest" by (cases L) auto
    have "[Suc (n - max_cp)..<Suc (Suc n)]
        = Suc (n - max_cp) # [Suc (Suc (n - max_cp))..<Suc (Suc n)]"
      by (rule upt_conv_Cons) simp
    moreover from True have "min n max_cp = max_cp" by simp
    ultimately have "cp_id x # map cp_id rest
        = Suc (n - max_cp) # [Suc (Suc (n - max_cp))..<Suc (Suc n)]"
      using L_ids L by (simp del: upt_Suc)
    then have x: "cp_id x = Suc (n - max_cp)"
      and rest_ids: "map cp_id rest = [Suc (Suc (n - max_cp))..<Suc (Suc n)]"
      by simp_all
    from L L_paths x have px: "path x = checkpoint_path dir (Suc (n - max_cp))" by simp
    from True have m1: "Suc n - min (Suc n) max_cp = Suc (n - max_cp)" by simp
    from True have m2: "Suc n - max_cp = Suc (n - max_cp)" by simp
    have fs': "fs' = insert (checkpoint_path dir (Suc n)) fs - {checkpoint_path dir (Suc (n - max_cp))}"
      using res(3) d L px by simp
    have g: "\<forall>i. 1 \<le> i \<and> i \<le> Suc n - max_cp \<longrightarrow> checkpoint_path dir i \<notin> fs'"
    proof (intro allI impI)
      fix i assume i: "1 \<le> i \<and> i \<le> Suc n - max_cp"
      show "checkpoint_path dir i \<notin> fs'"
      proof (cases "i = Suc (n - max_cp)")
        case True
        then show ?thesis by (simp add: fs')
      next
        case False
        with i m2 have "i \<le> n - max_cp" by simp
        with i gone have "checkpoint_path dir i \<notin> fs" by simp
        moreover from \<open>i \<le> n - max_cp\<close> have "i \<noteq> Suc n" by simp
        then have "checkpoint_path dir i \<noteq> checkpoint_path dir (Suc n)"
          using checkpoint_path_inj by blast
        ultimately show ?thesis by (simp add: fs')
      qed
    qed
    have k: "\<forall>i. Suc n - max_cp < i \<and> i \<le> Suc n \<longrightarrow> checkpoint_path dir i \<in> fs'"
    proof (intro allI impI)
      fix i assume i: "Suc n - max_cp < i \<and> i \<le> Suc n"
      with m2 have "i \<noteq> Suc (n - max_cp)" by simp
      then have ne: "checkpoint_path dir i \<noteq> checkpoint_path dir (Suc (n - max_cp))"
        using checkpoint_path_inj by blast
      show "checkpoint_path dir i \<in> fs'"
      proof (cases "i = Suc n")
        case True
        with ne show ?thesis by (simp add: fs')
      next
        case False
        with i m2 have "n - max_cp < i \<and> i \<le> n" by simp
        with kept have "checkpoint_path dir i \<in> fs" by simp
        with ne show ?thesis by (simp add: fs')
      qed
    qed
    from res(2) d L have cps': "checkpoints m' = rest" by simp
    have ids': "map cp_id (checkpoints m') = [Suc (Suc n - min (Suc n) max_cp)..<Suc (Suc n)]"
      unfolding cps' m1 by (rule rest_ids)
    have paths': "\<forall>c \<in> set (checkpoints m'). path c = checkpoint_path dir (cp_id c)"
      using L L_paths cps' by simp
    from res(2) dir mx have "checkpoint_dir m' = dir" "max_checkpoints m' = max_cp" by simp_all
    with ids' paths' g k have "cp_inv dir max_cp (Suc n) (m', fs')"
      unfolding cp_inv_def Let_def prod.case by blast
    with res(1) show ?thesis by (simp add: c_def)
  next
    case False
    then have d: "length L - max_cp = 0" using L_len by simp
    from False have m1: "Suc n - min (Suc n) max_cp = 0" "n - min n max_cp = 0"
      and m2: "Suc n - max_cp = 0" "n - max_cp = 0" by simp_all
    have fs': "fs' = insert (checkpoint_path dir (Suc n)) fs" using res(3) d by simp
    have k: "\<forall>i. Suc n - max_cp < i \<and> i \<le> Suc n \<longrightarrow> checkpoint_path dir i \<in> fs'"
    proof (intro allI impI)
      fix i assume i: "Suc n - max_cp < i \<and> i \<le> Suc n"
      show "checkpoint_path dir i \<in> fs'"
      proof (cases "i = Suc n")
        case True
        then show ?thesis by (simp add: fs')
      next
        case False
        with i m2 have "n - max_cp < i \<and> i \<le> n" by simp
        with kept show ?thesis by (simp add: fs')
      qed
    qed
    from res(2) d have cps': "checkpoints m' = L" by simp
    have ids': "map cp_id (checkpoints m') = [Suc (Suc n - min (Suc n) max_cp)..<Suc (Suc n)]"
      unfolding cps' m1 using L_ids m1(2) by simp
    have paths': "\<forall>c \<in> set (checkpoints m'). path c = checkpoint_path dir (cp_id c)"
      using L_paths cps' by simp
    have g: "\<forall>i. 1 \<le> i \<and> i \<le> Suc n - max_cp \<longrightarrow> checkpoint_path dir i \<notin> fs'"
      using m2 by simp
    from res(2) dir mx have "checkpoint_dir m' = dir" "max_checkpoints m' = max_cp" by simp_all
    with ids' paths' g k have "cp_inv dir max_cp (Suc n) (m', fs')"
      unfolding cp_inv_def Let_def prod.case by blast
    with res(1) show ?thesis by (simp add: c_def)
  qed
qed

lemma create_checkpoint_retained:
  assumes "create_checkpoint reply (m, fs) = Inr (cp, m', fs')"
  shows "checkpoints m' = drop (Suc (length (checkpoints m)) - max_checkpoints m) (checkpoints m @ [cp])
         \<and> max_checkpoints m' = max_checkpoints m"
  using assms
  by (auto simp: create_checkpoint_def Let_def cleanup_old_eq split: if_splits)

lemma drop_append_le: "a \<le> length xs \<Longrightarrow> drop a (xs @ ys) = drop a xs @ ys"
  by simp

lemma create_many_retained:
  "create_many replies (m, fs) = (cps, m', fs') \<Longrightarrow>
   length (checkpoints m) \<le> max_checkpoints m \<Longrightarrow>
     checkpoints m' = drop (length (checkpoints m @ cps) - max_checkpoints m) (checkpoints m @ cps)
     \<and> max_checkpoints m' = max_checkpoints m"
proof (induction replies arbitrary: m fs cps)
  case Nil
  then show ?case by simp
next
  case (Cons reply replies)
  show ?case
  proof (cases "create_checkpoint reply (m, fs)")
    case (Inl e)
    with Cons.prems have "create_many replies (m, fs) = (cps, m', fs')" by simp
    from Cons.IH [OF this Cons.prems(2)] show ?thesis .
  next
    case (Inr r)
    obtain cp m1 fs1 where r: "r = (cp, m1, fs1)" by (cases r)
    obtain cps1 where rest: "create_many replies (m1, fs1) = (cps1, m', fs')" "cps = cp # cps1"
      using Cons.prems Inr r by (auto split: prod.splits)
    from create_checkpoint_retained [of reply m fs cp m1 fs1] Inr r
    have one: "checkpoints m1
        = drop (Suc (length (checkpoints m)) - max_checkpoints m) (checkpoints m @ [cp])"
      and mx: "max_checkpoints m1 = max_checkpoints m" by simp_all
    from one have len1: "length (checkpoints m1) \<le> max_checkpoints m1"
      using mx by simp
    from Cons.IH [OF rest(1) len1] mx
    have ih: "checkpoints m'
        = drop (length (checkpoints m1 @ cps1) - max_checkpoints m) (checkpoints m1 @ cps1)"
      and mx': "max_checkpoints m' = max_checkpoints m" by simp_all
    define a where "a = Suc (length (checkpoints m)) - max_checkpoints m"
    have a: "a \<le> length (checkpoints m @ [cp])" by (simp add: a_def)
    have one': "checkpoints m1 = drop a (checkpoints m @ [cp])"
      unfolding a_def by (rule one)
    have "drop a ((checkpoints m @ [cp]) @ cps1) = drop a (checkpoints m @ [cp]) @ cps1"
      using a by (rule drop_append_le)
    with one' have cat: "checkpoints m1 @ cps1 = drop a ((checkpoints m @ [cp]) @ cps1)"
      by (simp only:)
    have "length (checkpoints m1) = Suc (length (checkpoints m)) - a"
      unfolding one' by simp
    then have sum: "(length (checkpoints m1 @ cps1) - max_checkpoints m) + a
        = length (checkpoints m @ cps) - max_checkpoints m"
      using rest(2) Cons.prems(2) by (auto simp: a_def)
    have "checkpoints m'
        = drop (length (checkpoints m1 @ cps1) - max_checkpoints m)
            (drop a ((checkpoints m @ [cp]) @ cps1))"
      using ih cat by (simp only:)
    also have "\<dots> = drop ((length (checkpoints m1 @ cps1) - max_checkpoints m) + a)
            ((checkpoints m @ [cp]) @ cps1)"
      by (simp only: drop_drop)
    also have "\<dots> = drop (length (checkpoints m @ cps) - max_checkpoints m) (checkpoints m @ cps)"
      unfolding sum using rest(2) by simp
    finally show ?thesis using mx' by simp
  qed
qed

lemma create_many_run:
  assumes "1 \<le> max_cp"
  shows "cp_inv dir max_cp n state \<Longrightarrow> n + length replies < 2 ^ 64 \<Longrightarrow>
     create_many replies state = (cps, state') \<Longrightarrow>
       map cp_id cps = [Suc n..<Suc (n + length cps)] \<and>
       (\<forall>c \<in> set cps. path c = checkpoint_path dir (cp_id c)) \<and>
       cp_inv dir max_cp (n + length cps) state'"
proof (induction replies arbitrary: n state cps)
  case Nil
  then show ?case by simp
next
  case (Cons reply replies)
  obtain m fs where state: "state = (m, fs)" by (cases state)
  show ?case
  proof (cases "create_checkpoint reply state")
    case (Inl e)
    with Cons.prems(3) have "create_many replies state = (cps, state')" by simp
    moreover from Cons.prems(2) have "n + length replies < 2 ^ 64" by simp
    ultimately show ?thesis using Cons.IH [OF Cons.prems(1)] by blast
  next
    case (Inr r)
    obtain cp m1 fs1 where r: "r = (cp, m1, fs1)" by (cases r)
    obtain cps1 where rest: "create_many replies (m1, fs1) = (cps1, state')" "cps = cp # cps1"
      using Cons.prems(3) Inr r by (auto split: prod.splits)
    from Cons.prems(2) have n1: "Suc n < 2 ^ 64" and n2: "Suc n + length replies < 2 ^ 64"
      by simp_all
    from create_checkpoint_step [OF _ assms n1, of dir m fs reply cp m1 fs1]
      Cons.prems(1) Inr r state
    have one: "cp_id cp = Suc n" "path cp = checkpoint_path dir (Suc n)"
      "cp_inv dir max_cp (Suc n) (m1, fs1)" by simp_all
    from Cons.IH [OF one(3) n2 rest(1)]
    have ih: "map cp_id cps1 = [Suc (Suc n)..<Suc (Suc n + length cps1)]"
      "\<forall>c \<in> set cps1. path c = checkpoint_path dir (cp_id c)"
      "cp_inv dir max_cp (Suc n + length cps1) state'" by simp_all
    have "[Suc n..<Suc (n + length cps)] = Suc n # [Suc (Suc n)..<Suc (Suc n + length cps1)]"
      using rest(2) by (simp add: upt_conv_Cons del: upt_Suc)
    with one ih rest(2) show ?thesis by (simp del: upt_Suc)
  qed
qed

text \<open>
  C8 (as amended). On a manager with \<open>max_checkpoints \<ge> 1\<close>, along any sequence of fewer than
  \<open>2^64\<close> calls of \<^verbatim>\<open>create_checkpoint\<close> from construction (failed calls change nothing), the
  checkpoints returned by the successful calls carry the ids 1, 2, 3, ... in order; the
  retained list is the newest \<open>max_checkpoints\<close> of them (the older ones were evicted from
  the front), so it never holds more than \<open>max_checkpoints\<close> entries; the file of every
  evicted checkpoint is gone and the file of every retained one exists. With
  \<open>max_checkpoints = 2\<close>, creating checkpoints 1, 2, 3 retains 2 and 3 and deletes the file
  of checkpoint 1.
\<close>

theorem checkpoint_ids_and_retention:
  assumes "1 \<le> max_cp" and "length replies < 2 ^ 64"
    and "create_many replies (CheckpointManager_init dir max_cp, fs) = (cps, m, fs')"
  shows "map cp_id cps = [1..<Suc (length cps)] \<and>
         checkpoints m = drop (length cps - max_cp) cps \<and>
         length (checkpoints m) \<le> max_cp \<and>
         (\<forall>c \<in> set (take (length cps - max_cp) cps). path c \<notin> fs') \<and>
         (\<forall>c \<in> set (checkpoints m). path c \<in> fs')"
proof -
  from create_many_run [OF assms(1) cp_inv_init, of replies dir fs cps "(m, fs')"] assms(2,3)
  have ids: "map cp_id cps = [1..<Suc (length cps)]"
    and paths: "\<forall>c \<in> set cps. path c = checkpoint_path dir (cp_id c)"
    and inv: "cp_inv dir max_cp (length cps) (m, fs')" by simp_all
  from create_many_retained [OF assms(3)]
  have kept: "checkpoints m = drop (length cps - max_cp) cps"
    by (simp add: CheckpointManager_init_def)
  from inv have gone: "\<forall>i. 1 \<le> i \<and> i \<le> length cps - max_cp \<longrightarrow> checkpoint_path dir i \<notin> fs'"
    and there: "\<forall>i. length cps - max_cp < i \<and> i \<le> length cps \<longrightarrow> checkpoint_path dir i \<in> fs'"
    by (simp_all add: cp_inv_def)
  have id_nth: "cp_id (cps ! j) = Suc j" if "j < length cps" for j
  proof -
    from that have "cp_id (cps ! j) = map cp_id cps ! j" by simp
    also have "\<dots> = Suc j" using that unfolding ids by (simp del: upt_Suc)
    finally show ?thesis .
  qed
  have evicted: "\<forall>c \<in> set (take (length cps - max_cp) cps). path c \<notin> fs'"
  proof
    fix c assume "c \<in> set (take (length cps - max_cp) cps)"
    then obtain j where j: "j < length cps - max_cp" "j < length cps" "c = cps ! j"
      by (auto simp: in_set_conv_nth)
    with id_nth paths have "path c = checkpoint_path dir (Suc j)" by simp
    with gone j(1) show "path c \<notin> fs'" by simp
  qed
  have retained: "\<forall>c \<in> set (checkpoints m). path c \<in> fs'"
  proof
    fix c assume "c \<in> set (checkpoints m)"
    with kept obtain j where j: "j < length cps - (length cps - max_cp)"
      "c = cps ! (length cps - max_cp + j)"
      by (auto simp: in_set_conv_nth)
    then have lt: "length cps - max_cp + j < length cps" by simp
    with id_nth paths j(2) have "path c = checkpoint_path dir (Suc (length cps - max_cp + j))"
      by simp
    with there lt show "path c \<in> fs'" by simp
  qed
  from kept have "length (checkpoints m) \<le> max_cp" by simp
  with ids kept evicted retained show ?thesis by blast
qed


theorem checkpoint_ids_and_retention_witness:
  "(1::nat) \<le> 2 \<and>
   length [saved 1000 10, saved 2000 20, saved 2000 30] < 2 ^ 64 \<and>
   create_many [saved 1000 10, saved 2000 20, saved 2000 30]
       (CheckpointManager_init ''/tmp/checkpoints'' 2, {})
     = ([\<lparr>cp_id = 1, path = ''/tmp/checkpoints/checkpoint_1.usearch'', timestamp = 10,
           num_vectors = 1000\<rparr>,
         \<lparr>cp_id = 2, path = ''/tmp/checkpoints/checkpoint_2.usearch'', timestamp = 20,
           num_vectors = 2000\<rparr>,
         \<lparr>cp_id = 3, path = ''/tmp/checkpoints/checkpoint_3.usearch'', timestamp = 30,
           num_vectors = 2000\<rparr>],
        \<lparr>checkpoint_dir = ''/tmp/checkpoints'', max_checkpoints = 2,
          checkpoints =
            [\<lparr>cp_id = 2, path = ''/tmp/checkpoints/checkpoint_2.usearch'', timestamp = 20,
               num_vectors = 2000\<rparr>,
             \<lparr>cp_id = 3, path = ''/tmp/checkpoints/checkpoint_3.usearch'', timestamp = 30,
               num_vectors = 2000\<rparr>]\<rparr>,
        {''/tmp/checkpoints/checkpoint_2.usearch'', ''/tmp/checkpoints/checkpoint_3.usearch''}) \<and>
   ''/tmp/checkpoints/checkpoint_1.usearch''
     \<notin> {''/tmp/checkpoints/checkpoint_2.usearch'', ''/tmp/checkpoints/checkpoint_3.usearch''}"
  (is "_ \<and> _ \<and> create_many ?replies ?start = (?cps, ?m, ?fs) \<and> _")
proof -
  have h1: "(1::nat) \<le> 2" by simp
  have h2: "length ?replies < 2 ^ 64" by simp
  have run: "create_many ?replies ?start = (?cps, ?m, ?fs)"
    by (auto simp add: create_checkpoint_def CheckpointManager_init_def saved_def
        checkpoint_path_def to_string_digits u64_def Let_def)
  from checkpoint_ids_and_retention [OF h1 h2 run]
  have "\<forall>c \<in> set (take (length ?cps - 2) ?cps). path c \<notin> ?fs" by blast
  then have "''/tmp/checkpoints/checkpoint_1.usearch'' \<notin> ?fs" by simp
  with h1 h2 run show ?thesis by blast
qed

text \<open>
  C8 as stated fails for a manager that retains nothing: with \<open>max_checkpoints = 0\<close> every
  checkpoint is evicted as soon as it is created, the list is empty at the next call, and
  two successive successful calls both return id 1.
\<close>

theorem checkpoint_ids_repeat_when_none_retained:
  "map cp_id (fst (create_many [saved 1000 10, saved 2000 20]
      (CheckpointManager_init ''/tmp/checkpoints'' 0, {}))) = [1, 1] \<and>
   \<not> sorted_wrt (<) (map cp_id (fst (create_many [saved 1000 10, saved 2000 20]
      (CheckpointManager_init ''/tmp/checkpoints'' 0, {}))))"
  by (simp add: create_checkpoint_def CheckpointManager_init_def saved_def checkpoint_path_def
      to_string_digits u64_def Let_def)

section \<open>ShardNode and the Vector Index Engine (distributed\_examples.cpp)\<close>

text \<open>
  Modelled from the spec: \<^verbatim>\<open>result_t\<close>, the (key, distance) pair of a search result, declared
  in the usearch headers. Keys are unsigned integers, distances are \<^verbatim>\<open>float\<close> values,
  compared only, modelled as real numbers (NaN has no counterpart). A vector
  (\<^verbatim>\<open>float const*\<close>) is a list of reals; a (pointer, count) pair is a list and the count.
\<close>

record result_t =
  key :: nat
  distance :: real

text \<open>
  Modelled from the spec: the Vector Index Engine (\<^verbatim>\<open>index_dense_gt\<close> of the usearch
  headers, which the examples include but do not contain). Section 6 of the specification
  gives its operations: \<^verbatim>\<open>add\<close> of one key and vector, \<^verbatim>\<open>add\<close> of a batch, both of which
  can fail (engine full, invalid vector), and \<^verbatim>\<open>search\<close>, which returns (key, distance)
  pairs. The source reads the outcome of \<^verbatim>\<open>save\<close> and \<^verbatim>\<open>load\<close> as
  \<^verbatim>\<open>.error == error_t::success_k\<close>; an insertion reports in the same way, with a status of
  type \<open>error_t\<close> (the source names only \<^verbatim>\<open>success_k\<close>). The engine is a parameter of the
  model: a record of functions on an engine state \<open>'e\<close>; an insertion returns the status and
  the state afterwards.
\<close>

datatype error_t = success_k | failure_k

record 'e engine =
  engine_add :: "nat \<Rightarrow> real list \<Rightarrow> 'e \<Rightarrow> error_t \<times> 'e"
  engine_add_batch :: "nat list \<Rightarrow> real list \<Rightarrow> nat \<Rightarrow> 'e \<Rightarrow> error_t \<times> 'e"
  engine_search :: "real list \<Rightarrow> nat \<Rightarrow> 'e \<Rightarrow> result_t list"

record 'e ShardNode =
  index :: 'e
  node_shard_id :: nat
  node_dimensions :: nat
  query_count :: "64 word"

definition ShardNode_add ::
  "'e engine \<Rightarrow> nat \<Rightarrow> real list \<Rightarrow> 'e ShardNode \<Rightarrow> bool \<times> 'e ShardNode" where
  "ShardNode_add eng k vec node =
     (let (added, idx) = engine_add eng k vec (index node)
      in (True, node\<lparr>index := idx\<rparr>))"

definition ShardNode_add_batch ::
  "'e engine \<Rightarrow> nat list \<Rightarrow> real list \<Rightarrow> nat \<Rightarrow> 'e ShardNode \<Rightarrow> bool \<times> 'e ShardNode" where
  "ShardNode_add_batch eng keys vectors cnt node =
     (let (added, idx) = engine_add_batch eng keys vectors cnt (index node)
      in (True, node\<lparr>index := idx\<rparr>))"

definition ShardNode_search ::
  "'e engine \<Rightarrow> real list \<Rightarrow> nat \<Rightarrow> 'e ShardNode \<Rightarrow> result_t list \<times> 'e ShardNode" where
  "ShardNode_search eng query k node =
     (engine_search eng query k (index node), node\<lparr>query_count := query_count node + 1\<rparr>)"

text \<open>
  Modelled from the spec: one Vector Index Engine to run the model on. It holds at most
  \<open>stub_capacity\<close> keys, and an insertion that would exceed the capacity fails and changes
  nothing ("engine full", section 6); a search returns the first \<open>k\<close> entries of a fixed
  answer.
\<close>

record stub_index =
  stub_capacity :: nat
  stub_keys :: "nat list"
  stub_answer :: "result_t list"

definition stub_engine :: "stub_index engine" where
  "stub_engine =
     \<lparr>engine_add = (\<lambda>k vec s.
        if length (stub_keys s) < stub_capacity s
        then (success_k, s\<lparr>stub_keys := stub_keys s @ [k]\<rparr>)
        else (failure_k, s)),
      engine_add_batch = (\<lambda>keys vectors cnt s.
        if length (stub_keys s) + cnt \<le> stub_capacity s
        then (success_k, s\<lparr>stub_keys := stub_keys s @ take cnt keys\<rparr>)
        else (failure_k, s)),
      engine_search = (\<lambda>query k s. take k (stub_answer s))\<rparr>"

definition stub_shard :: "nat \<Rightarrow> nat \<Rightarrow> result_t list \<Rightarrow> stub_index ShardNode" where
  "stub_shard sid capacity answer =
     \<lparr>index = \<lparr>stub_capacity = capacity, stub_keys = [], stub_answer = answer\<rparr>,
      node_shard_id = sid, node_dimensions = 1, query_count = 0\<rparr>"

lemma ShardNode_add_always_true: "fst (ShardNode_add eng k vec node)"
  by (simp add: ShardNode_add_def Let_def split: prod.splits)

lemma ShardNode_add_batch_always_true: "fst (ShardNode_add_batch eng keys vectors cnt node)"
  by (simp add: ShardNode_add_batch_def Let_def split: prod.splits)

text \<open>
  C9. The claim says \<^verbatim>\<open>ShardNode::add\<close> and \<^verbatim>\<open>ShardNode::add_batch\<close> return a failed result
  when the engine fails the insertion. On a full engine (capacity 0) the engine reports
  failure for an insertion of one key and of a batch of two, and both calls of the shard
  return \<^verbatim>\<open>true\<close>, the shard unchanged: the code discards the engine's status.
\<close>

theorem ShardNode_add_hides_engine_failure:
  "fst (engine_add stub_engine 7 [0.5] (index (stub_shard 0 0 []))) = failure_k \<and>
   ShardNode_add stub_engine 7 [0.5] (stub_shard 0 0 []) = (True, stub_shard 0 0 []) \<and>
   fst (engine_add_batch stub_engine [7, 8] [0.5, 0.25] 2 (index (stub_shard 0 0 []))) = failure_k \<and>
   ShardNode_add_batch stub_engine [7, 8] [0.5, 0.25] 2 (stub_shard 0 0 [])
     = (True, stub_shard 0 0 [])"
  by (simp add: ShardNode_add_def ShardNode_add_batch_def stub_engine_def stub_shard_def)

section \<open>ShardingStrategy (distributed\_examples.cpp)\<close>

text \<open>
  The three strategies as one datatype: hash (the number of shards), round robin (the
  number of shards and the counter, which \<^verbatim>\<open>shard_id\<close> advances) and range (the intervals).
  \<^verbatim>\<open>std::hash\<close> is a parameter. \<^verbatim>\<open>shard_id\<close> returns the shard and the strategy afterwards;
  a remainder by zero shards is undefined behaviour.
\<close>

datatype ShardingStrategy =
    HashSharding nat
  | RoundRobinSharding nat nat
  | RangeSharding "Range list"

fun strategy_shard_id ::
  "(nat \<Rightarrow> nat) \<Rightarrow> ShardingStrategy \<Rightarrow> nat \<Rightarrow> error + nat \<times> ShardingStrategy" where
  "strategy_shard_id std_hash (HashSharding num_shards) k =
     (if num_shards = 0 then Inl division_by_zero
      else Inr (std_hash k mod num_shards, HashSharding num_shards))"
| "strategy_shard_id std_hash (RoundRobinSharding num_shards counter) k =
     (if num_shards = 0 then Inl division_by_zero
      else Inr (counter mod num_shards, RoundRobinSharding num_shards (u64 (counter + 1))))"
| "strategy_shard_id std_hash (RangeSharding ranges) k =
     (case RangeSharding_shard_id ranges k of
        Inl e \<Rightarrow> Inl e
      | Inr s \<Rightarrow> Inr (s, RangeSharding ranges))"

fun target_shards :: "ShardingStrategy \<Rightarrow> nat \<Rightarrow> nat list" where
  "target_shards (HashSharding num_shards) n_probe = [0..<min n_probe num_shards]"
| "target_shards (RoundRobinSharding num_shards counter) n_probe = [0..<min n_probe num_shards]"
| "target_shards (RangeSharding ranges) n_probe = [0..<min n_probe (length ranges)]"

section \<open>DistributedIndex: add and add\_batch (distributed\_examples.cpp)\<close>

text \<open>
  \<^verbatim>\<open>add_batch\<close> groups the keys by shard in input order, starts one task per non-empty
  group and waits for all of them. The tasks work on different shards, so their
  interleaving does not matter and \<open>dispatch_groups\<close> runs them shard by shard; it returns
  the values of the futures and the shards afterwards. Reading \<^verbatim>\<open>count\<close> keys or
  \<^verbatim>\<open>count * dimensions_\<close> vector components from shorter arrays is undefined behaviour.
\<close>

record 'e DistributedIndex =
  shards :: "'e ShardNode list"
  strategy :: ShardingStrategy
  dimensions :: nat
  total_queries :: "64 word"

definition DistributedIndex_add ::
  "(nat \<Rightarrow> nat) \<Rightarrow> 'e engine \<Rightarrow> nat \<Rightarrow> real list \<Rightarrow> 'e DistributedIndex \<Rightarrow>
   error + bool \<times> 'e DistributedIndex" where
  "DistributedIndex_add std_hash eng k vec d =
     (case strategy_shard_id std_hash (strategy d) k of
        Inl e \<Rightarrow> Inl e
      | Inr (sid, st) \<Rightarrow>
          if length (shards d) \<le> sid then Inl out_of_range
          else
            let (added, node) = ShardNode_add eng k vec (shards d ! sid)
            in Inr (added, d\<lparr>shards := (shards d)[sid := node], strategy := st\<rparr>))"

fun group_keys ::
  "(nat \<Rightarrow> nat) \<Rightarrow> nat \<Rightarrow> nat list \<Rightarrow> real list \<Rightarrow> nat list \<Rightarrow> ShardingStrategy \<Rightarrow>
   (nat \<times> real list) list list \<Rightarrow> error + (nat \<times> real list) list list \<times> ShardingStrategy" where
  "group_keys std_hash dims keys vectors [] st groups = Inr (groups, st)"
| "group_keys std_hash dims keys vectors (i # rest) st groups =
     (case strategy_shard_id std_hash st (keys ! i) of
        Inl e \<Rightarrow> Inl e
      | Inr (sid, st') \<Rightarrow>
          if length groups \<le> sid then Inl out_of_range
          else group_keys std_hash dims keys vectors rest st'
                 (groups[sid := groups ! sid @ [(keys ! i, take dims (drop (i * dims) vectors))]]))"

fun dispatch_groups ::
  "'e engine \<Rightarrow> ((nat \<times> real list) list \<times> 'e ShardNode) list \<Rightarrow> bool list \<times> 'e ShardNode list" where
  "dispatch_groups eng [] = ([], [])"
| "dispatch_groups eng ((grp, node) # rest) =
     (let (futures, nodes) = dispatch_groups eng rest
      in if grp = [] then (futures, node # nodes)
         else
           let (added, node') =
                 ShardNode_add_batch eng (map fst grp) (concat (map snd grp)) (length grp) node
           in (added # futures, node' # nodes))"

definition DistributedIndex_add_batch ::
  "(nat \<Rightarrow> nat) \<Rightarrow> 'e engine \<Rightarrow> nat list \<Rightarrow> real list \<Rightarrow> nat \<Rightarrow> 'e DistributedIndex \<Rightarrow>
   error + bool \<times> 'e DistributedIndex" where
  "DistributedIndex_add_batch std_hash eng keys vectors cnt d =
     (if length keys < cnt \<or> length vectors < cnt * dimensions d then Inl out_of_range
      else
        case group_keys std_hash (dimensions d) keys vectors [0..<cnt] (strategy d)
               (replicate (length (shards d)) []) of
          Inl e \<Rightarrow> Inl e
        | Inr (groups, st) \<Rightarrow>
            let (futures, nodes) = dispatch_groups eng (zip groups (shards d))
            in Inr (True, d\<lparr>shards := nodes, strategy := st\<rparr>))"

text \<open>
  A cluster of stub engines of one capacity, one shard per answer list, with hash sharding.
\<close>

definition stub_cluster :: "nat \<Rightarrow> result_t list list \<Rightarrow> stub_index DistributedIndex" where
  "stub_cluster capacity answers =
     \<lparr>shards = map (\<lambda>i. stub_shard i capacity (answers ! i)) [0..<length answers],
      strategy = HashSharding (length answers), dimensions = 1, total_queries = 0\<rparr>"

lemma DistributedIndex_add_batch_always_true:
  "DistributedIndex_add_batch std_hash eng keys vectors cnt d = Inr (r, d') \<Longrightarrow> r"
  by (auto simp: DistributedIndex_add_batch_def Let_def split: if_splits sum.splits prod.splits)

text \<open>
  C4. The claim says \<^verbatim>\<open>add_batch\<close> returns failure when a group's dispatch fails. Two shards
  of capacity 1 receive the keys 1, 3, 2 (\<^verbatim>\<open>std::hash\<close> the identity): shard 1 gets the group
  1, 3, which its engine rejects, shard 0 gets 2, which its engine stores. The other group
  completes, as the claim says, but the call returns \<^verbatim>\<open>true\<close>: the values of the futures are
  discarded.
\<close>

theorem add_batch_hides_group_failure:
  "DistributedIndex_add_batch (\<lambda>k. k) stub_engine [1, 3, 2] [0.1, 0.3, 0.2] 3
       (stub_cluster 1 [[], []])
     = Inr (True,
            \<lparr>shards = [(stub_shard 0 1 [])\<lparr>index := \<lparr>stub_capacity = 1, stub_keys = [2],
                                                      stub_answer = []\<rparr>\<rparr>,
                       stub_shard 1 1 []],
             strategy = HashSharding 2, dimensions = 1, total_queries = 0\<rparr>) \<and>
   fst (engine_add_batch stub_engine [1, 3] [0.1, 0.3] 2 (index (stub_shard 1 1 []))) = failure_k"
  by code_simp

section \<open>DistributedIndex: search (distributed\_examples.cpp)\<close>

text \<open>
  \<^verbatim>\<open>std::sort\<close> and \<^verbatim>\<open>std::partial_sort\<close> are not stable, and the standard fixes their result
  only up to their contract. Both are parameters of the model; \<open>is_std_sort\<close> and
  \<open>is_std_partial_sort\<close> are the contracts for the two comparators of the source (by key,
  by distance). \<^verbatim>\<open>std::unique\<close> keeps the first element of every run of equal keys.
  \<^verbatim>\<open>std::partial_sort(first, first + k, last)\<close> needs \<^verbatim>\<open>first + k\<close> within the range: with
  fewer than \<open>k\<close> elements the call is undefined behaviour.
\<close>

definition is_std_sort :: "(result_t list \<Rightarrow> result_t list) \<Rightarrow> bool" where
  "is_std_sort srt \<longleftrightarrow>
     (\<forall>xs. mset (srt xs) = mset xs \<and> sorted_wrt (\<lambda>a b. \<not> key b < key a) (srt xs))"

definition is_std_partial_sort :: "(nat \<Rightarrow> result_t list \<Rightarrow> result_t list) \<Rightarrow> bool" where
  "is_std_partial_sort psrt \<longleftrightarrow>
     (\<forall>n xs. n \<le> length xs \<longrightarrow>
        mset (psrt n xs) = mset xs \<and>
        sorted_wrt (\<lambda>a b. \<not> distance b < distance a) (take n (psrt n xs)) \<and>
        (\<forall>a \<in> set (take n (psrt n xs)). \<forall>b \<in> set (drop n (psrt n xs)).
           \<not> distance b < distance a))"

fun std_unique :: "result_t list \<Rightarrow> result_t list" where
  "std_unique [] = []"
| "std_unique [a] = [a]"
| "std_unique (a # b # rest) =
     (if key a = key b then std_unique (a # rest) else a # std_unique (b # rest))"

definition merge_results ::
  "(result_t list \<Rightarrow> result_t list) \<Rightarrow> (nat \<Rightarrow> result_t list \<Rightarrow> result_t list) \<Rightarrow>
   result_t list list \<Rightarrow> nat \<Rightarrow> error + result_t list" where
  "merge_results std_sort std_partial_sort results k =
     (let all_results = concat results;
          all_results = std_sort all_results;
          all_results = std_unique all_results
      in if length all_results < k then Inl invalid_iterator
         else
           let all_results = std_partial_sort k all_results
           in Inr (if length all_results > k then take k all_results else all_results))"

text \<open>
  The merge in the words of the specification: of the list sorted by key, keep the first
  entry and every entry whose predecessor has another key; partially sort what is left by
  distance (as many entries as there are, up to \<open>k\<close>) and truncate to the first \<open>k\<close>.
\<close>

definition spec_dedup_adjacent :: "result_t list \<Rightarrow> result_t list" where
  "spec_dedup_adjacent xs =
     (case xs of
        [] \<Rightarrow> []
      | x # rest \<Rightarrow> x # map snd (filter (\<lambda>(prev, cur). key prev \<noteq> key cur) (zip xs rest)))"

definition spec_merge ::
  "(result_t list \<Rightarrow> result_t list) \<Rightarrow> (nat \<Rightarrow> result_t list \<Rightarrow> result_t list) \<Rightarrow>
   result_t list list \<Rightarrow> nat \<Rightarrow> result_t list" where
  "spec_merge srt psrt results k =
     (let deduplicated = spec_dedup_adjacent (srt (concat results))
      in take k (psrt (min k (length deduplicated)) deduplicated))"

text \<open>
  The fan-out: \<^verbatim>\<open>n_probe\<close> is clamped, the strategy names the target shards, and the loop
  \<^verbatim>\<open>for (auto shard_id : target_shards)\<close> starts one task per target with
  \<^verbatim>\<open>std::async(std::launch::async, [&]() { return shards_[shard_id]->search(query, k); })\<close>.
  The lambda captures the loop variable \<^verbatim>\<open>shard_id\<close> by reference, and that variable lives
  until the end of its own loop iteration only: a task that reads it later reads through a
  dangling reference, which is undefined behaviour. When the new thread runs is not for the
  program to choose, so it is a parameter of the model: \<open>in_time j\<close> says that the task of
  the \<open>j\<close>-th target reads \<^verbatim>\<open>shard_id\<close> before its iteration ends. When every task is in
  time, each target shard is searched once (its query counter goes up by one) and the
  results are collected in the order of the targets; the tasks work on different shards, so
  their interleaving does not matter.
\<close>

definition fan_out ::
  "(nat \<Rightarrow> bool) \<Rightarrow> 'e engine \<Rightarrow> real list \<Rightarrow> nat \<Rightarrow> nat \<Rightarrow> 'e DistributedIndex \<Rightarrow>
   error + result_t list list \<times> 'e DistributedIndex" where
  "fan_out in_time eng query k n_probe d =
     (let n_probe = (if n_probe = 0 \<or> n_probe > length (shards d) then length (shards d)
                     else n_probe);
          targets = target_shards (strategy d) n_probe
      in if list_ex (\<lambda>j. \<not> in_time j) [0..<length targets] then Inl dangling_reference
         else if \<exists>sid \<in> set targets. length (shards d) \<le> sid then Inl out_of_range
         else Inr (map (\<lambda>sid. fst (ShardNode_search eng query k (shards d ! sid))) targets,
                   d\<lparr>shards := foldl (\<lambda>nodes sid.
                                   nodes[sid := snd (ShardNode_search eng query k (nodes ! sid))])
                                 (shards d) targets,
                     total_queries := total_queries d + 1\<rparr>))"

definition DistributedIndex_search ::
  "(result_t list \<Rightarrow> result_t list) \<Rightarrow> (nat \<Rightarrow> result_t list \<Rightarrow> result_t list) \<Rightarrow>
   (nat \<Rightarrow> bool) \<Rightarrow> 'e engine \<Rightarrow> real list \<Rightarrow> nat \<Rightarrow> nat \<Rightarrow> 'e DistributedIndex \<Rightarrow>
   error + result_t list \<times> 'e DistributedIndex" where
  "DistributedIndex_search std_sort std_partial_sort in_time eng query k n_probe d =
     (case fan_out in_time eng query k n_probe d of
        Inl e \<Rightarrow> Inl e
      | Inr (results, d') \<Rightarrow>
          (case merge_results std_sort std_partial_sort results k of
             Inl e \<Rightarrow> Inl e
           | Inr all_results \<Rightarrow> Inr (all_results, d')))"

lemma dedup_tail_cong:
  "key a = key b \<Longrightarrow>
     map snd (filter (\<lambda>(prev, cur). key prev \<noteq> key cur) (zip (a # xs) xs))
   = map snd (filter (\<lambda>(prev, cur). key prev \<noteq> key cur) (zip (b # xs) xs))"
  by (cases xs) simp_all

lemma std_unique_eq_spec: "std_unique xs = spec_dedup_adjacent xs"
proof (induction xs rule: std_unique.induct)
  case 1
  then show ?case by (simp add: spec_dedup_adjacent_def)
next
  case (2 a)
  then show ?case by (simp add: spec_dedup_adjacent_def)
next
  case (3 a b rest)
  show ?case
  proof (cases "key a = key b")
    case True
    with 3 have "std_unique (a # b # rest) = spec_dedup_adjacent (a # rest)" by simp
    also have "\<dots> = a # map snd (filter (\<lambda>(prev, cur). key prev \<noteq> key cur) (zip (a # rest) rest))"
      by (simp add: spec_dedup_adjacent_def)
    also have "\<dots> = a # map snd (filter (\<lambda>(prev, cur). key prev \<noteq> key cur) (zip (b # rest) rest))"
      using dedup_tail_cong [OF True] by simp
    also have "\<dots> = spec_dedup_adjacent (a # b # rest)"
      using True by (simp add: spec_dedup_adjacent_def)
    finally show ?thesis .
  next
    case False
    with 3 have "std_unique (a # b # rest) = a # spec_dedup_adjacent (b # rest)" by simp
    also have "\<dots> = spec_dedup_adjacent (a # b # rest)"
      using False by (simp add: spec_dedup_adjacent_def)
    finally show ?thesis .
  qed
qed

lemma set_std_unique: "set (std_unique xs) \<subseteq> set xs"
  by (induction xs rule: std_unique.induct) auto

lemma hd_std_unique: "xs \<noteq> [] \<Longrightarrow> hd (std_unique xs) = hd xs \<and> std_unique xs \<noteq> []"
  by (induction xs rule: std_unique.induct) auto

lemma keys_std_unique: "key ` set (std_unique xs) = key ` set xs"
  by (induction xs rule: std_unique.induct) auto

lemma length_std_unique: "length (std_unique xs) \<le> length xs"
  by (induction xs rule: std_unique.induct) auto

lemma sorted_std_unique:
  "sorted_wrt (\<lambda>a b. \<not> key b < key a) xs \<Longrightarrow> sorted_wrt (\<lambda>a b. key a < key b) (std_unique xs)"
proof (induction xs rule: std_unique.induct)
  case 1
  then show ?case by simp
next
  case (2 a)
  then show ?case by simp
next
  case (3 a b rest)
  show ?case
  proof (cases "key a = key b")
    case True
    from 3(3) have "sorted_wrt (\<lambda>a b. \<not> key b < key a) (a # rest)" by simp
    with 3(1) True show ?thesis by simp
  next
    case False
    from 3(3) have tl: "sorted_wrt (\<lambda>a b. \<not> key b < key a) (b # rest)" by simp
    with 3(2) False have ih: "sorted_wrt (\<lambda>a b. key a < key b) (std_unique (b # rest))" by simp
    have "key a < key c" if "c \<in> set (std_unique (b # rest))" for c
    proof -
      from that set_std_unique have "c \<in> set (b # rest)" by blast
      with 3(3) have "\<not> key c < key a" "\<not> key b < key a" by auto
      moreover from that tl have "\<not> key c < key b" 
        using set_std_unique [of "b # rest"] by auto
      ultimately show ?thesis using False by linarith
    qed
    with ih False show ?thesis by simp
  qed
qed

lemma distinct_keys_std_unique:
  assumes "sorted_wrt (\<lambda>a b. \<not> key b < key a) xs"
  shows "distinct (map key (std_unique xs))"
proof -
  from sorted_std_unique [OF assms] have "sorted_wrt (<) (map key (std_unique xs))"
    by (simp add: sorted_wrt_map)
  then show ?thesis by (simp add: strict_sorted_iff)
qed

lemma merge_results_eq_spec:
  assumes "is_std_partial_sort psrt" "k \<le> length (std_unique (srt (concat results)))"
  shows "merge_results srt psrt results k = Inr (spec_merge srt psrt results k)"
proof -
  let ?d = "std_unique (srt (concat results))"
  from assms have "mset (psrt k ?d) = mset ?d" by (simp add: is_std_partial_sort_def)
  then have "length (psrt k ?d) = length ?d" by (rule mset_eq_length)
  have "(if length (psrt k ?d) > k then take k (psrt k ?d) else psrt k ?d)
      = take k (psrt k ?d)"
  proof (cases "length (psrt k ?d) > k")
    case True
    then show ?thesis by simp
  next
    case False
    then have "length (psrt k ?d) \<le> k" by simp
    then have "take k (psrt k ?d) = psrt k ?d" by (rule take_all)
    with False show ?thesis by simp
  qed
  with assms(2) show ?thesis
    by (simp add: merge_results_def spec_merge_def Let_def std_unique_eq_spec [symmetric]
        min_absorb1)
qed

lemma merge_results_undefined:
  "length (std_unique (srt (concat results))) < k \<Longrightarrow>
     merge_results srt psrt results k = Inl invalid_iterator"
  by (simp add: merge_results_def Let_def)

lemma spec_merge_props:
  assumes srt: "is_std_sort srt" and psrt: "is_std_partial_sort psrt"
    and k: "k \<le> length (spec_dedup_adjacent (srt (concat results)))"
  shows "length (spec_merge srt psrt results k) = k"
    and "sorted_wrt (\<lambda>a b. distance a \<le> distance b) (spec_merge srt psrt results k)"
    and "distinct (map key (spec_merge srt psrt results k))"
    and "set (spec_merge srt psrt results k) \<subseteq> set (concat results)"
    and "key ` set (spec_dedup_adjacent (srt (concat results))) = key ` set (concat results)"
    and "\<forall>a \<in> set (spec_merge srt psrt results k).
           \<forall>b \<in> set (spec_dedup_adjacent (srt (concat results))).
             b \<notin> set (spec_merge srt psrt results k) \<longrightarrow> distance a \<le> distance b"
proof -
  let ?xs = "concat results"
  let ?d = "spec_dedup_adjacent (srt ?xs)"
  let ?p = "psrt k ?d"
  have out: "spec_merge srt psrt results k = take k ?p"
    using k by (simp add: spec_merge_def Let_def min_absorb1)
  from srt have s_mset: "mset (srt ?xs) = mset ?xs"
    and s_sorted: "sorted_wrt (\<lambda>a b. \<not> key b < key a) (srt ?xs)"
    by (simp_all add: is_std_sort_def)
  from psrt k have p_mset: "mset ?p = mset ?d"
    and p_sorted: "sorted_wrt (\<lambda>a b. \<not> distance b < distance a) (take k ?p)"
    and p_low: "\<forall>a \<in> set (take k ?p). \<forall>b \<in> set (drop k ?p). \<not> distance b < distance a"
    by (simp_all add: is_std_partial_sort_def)
  from p_mset have p_len: "length ?p = length ?d" by (rule mset_eq_length)
  from p_mset have p_set: "set ?p = set ?d" by (rule mset_eq_setD)
  from s_mset have s_set: "set (srt ?xs) = set ?xs" by (rule mset_eq_setD)
  show "length (spec_merge srt psrt results k) = k"
    using out p_len k by simp
  from p_sorted out
  show "sorted_wrt (\<lambda>a b. distance a \<le> distance b) (spec_merge srt psrt results k)"
    by (simp add: not_less)
  have "distinct (map key ?d)"
    using distinct_keys_std_unique [OF s_sorted] by (simp add: std_unique_eq_spec)
  moreover from p_mset have "mset (map key ?p) = mset (map key ?d)" by simp
  ultimately have "distinct (map key ?p)" by (metis mset_eq_imp_distinct_iff)
  then have "distinct (take k (map key ?p))" by (rule distinct_take)
  then show "distinct (map key (spec_merge srt psrt results k))"
    by (simp add: out take_map)
  have "set (take k ?p) \<subseteq> set ?p" by (rule set_take_subset)
  also have "\<dots> \<subseteq> set (srt ?xs)"
    using p_set set_std_unique [of "srt ?xs"] by (simp add: std_unique_eq_spec)
  finally show "set (spec_merge srt psrt results k) \<subseteq> set (concat results)"
    using s_set out by simp
  show "key ` set ?d = key ` set ?xs"
    using keys_std_unique [of "srt ?xs"] s_set by (simp add: std_unique_eq_spec)
  show "\<forall>a \<in> set (spec_merge srt psrt results k). \<forall>b \<in> set ?d.
          b \<notin> set (spec_merge srt psrt results k) \<longrightarrow> distance a \<le> distance b"
  proof (intro ballI impI)
    fix a b
    assume a: "a \<in> set (spec_merge srt psrt results k)" and b: "b \<in> set ?d"
      and nb: "b \<notin> set (spec_merge srt psrt results k)"
    have "set ?p = set (take k ?p) \<union> set (drop k ?p)"
      by (metis append_take_drop_id set_append)
    with b p_set have "b \<in> set (take k ?p) \<union> set (drop k ?p)" by simp
    with nb out have "b \<in> set (drop k ?p)" by simp
    with a out p_low have "\<not> distance b < distance a" by auto
    then show "distance a \<le> distance b" by simp
  qed
qed

lemma merge_example:
  assumes srt: "is_std_sort srt" and psrt: "is_std_partial_sort psrt"
    and keys: "distinct [k1, k2, k3]"
  shows "merge_results srt psrt
           [[\<lparr>key = k1, distance = 1\<rparr>, \<lparr>key = k2, distance = 0.5\<rparr>],
            [\<lparr>key = k2, distance = 0.5\<rparr>, \<lparr>key = k3, distance = 2\<rparr>]] 2
         = Inr [\<lparr>key = k2, distance = 0.5\<rparr>, \<lparr>key = k1, distance = 1\<rparr>]"
proof -
  define A where "A = \<lparr>key = k1, distance = 1\<rparr>"
  define B where "B = \<lparr>key = k2, distance = 0.5\<rparr>"
  define C where "C = \<lparr>key = k3, distance = 2\<rparr>"
  define rs where "rs = [[A, B], [B, C]]"
  define d where "d = spec_dedup_adjacent (srt (concat rs))"
  define out where "out = spec_merge srt psrt rs 2"
  have kA: "key A = k1" and kB: "key B = k2" and kC: "key C = k3"
    and dA: "distance A = 1" and dB: "distance B = 0.5" and dC: "distance C = 2"
    by (simp_all add: A_def B_def C_def)
  from keys kA kB kC have ne: "A \<noteq> B" "A \<noteq> C" "B \<noteq> C" by auto
  from srt have "mset (srt (concat rs)) = mset (concat rs)" by (simp add: is_std_sort_def)
  then have "set (srt (concat rs)) = set (concat rs)" by (rule mset_eq_setD)
  then have s_set: "set (srt (concat rs)) = {A, B, C}" by (auto simp: rs_def)
  have d_sub: "set d \<subseteq> {A, B, C}"
    using set_std_unique [of "srt (concat rs)"] s_set by (simp add: std_unique_eq_spec d_def)
  have "key ` set d = key ` {A, B, C}"
    using keys_std_unique [of "srt (concat rs)"] s_set by (simp add: std_unique_eq_spec d_def)
  then have d_keys: "key ` set d = {k1, k2, k3}" by (simp add: kA kB kC)
  have inA: "A \<in> set d"
  proof -
    from d_keys have "k1 \<in> key ` set d" by simp
    then obtain x where "x \<in> set d" "key x = k1" by blast
    with d_sub keys kA kB kC show ?thesis by auto
  qed
  have inB: "B \<in> set d"
  proof -
    from d_keys have "k2 \<in> key ` set d" by simp
    then obtain x where "x \<in> set d" "key x = k2" by blast
    with d_sub keys kA kB kC show ?thesis by auto
  qed
  have inC: "C \<in> set d"
  proof -
    from d_keys have "k3 \<in> key ` set d" by simp
    then obtain x where "x \<in> set d" "key x = k3" by blast
    with d_sub keys kA kB kC show ?thesis by auto
  qed
  from inA inB inC d_sub have d_set: "set d = {A, B, C}" by auto
  from ne have "card {A, B, C} = 3" by simp
  with d_set have "card (set d) = 3" by simp
  then have "3 \<le> length d" using card_length [of d] by simp
  then have k: "2 \<le> length (spec_dedup_adjacent (srt (concat rs)))" by (simp add: d_def)
  note props = spec_merge_props [OF srt psrt k, folded out_def d_def]
  from props(1) obtain x y where out: "out = [x, y]"
    by (metis (no_types, lifting) Suc_length_conv length_0_conv numeral_2_eq_2)
  from props(3) out have xy: "key x \<noteq> key y" by simp
  from props(4) out have mem: "x \<in> {A, B, C}" "y \<in> {A, B, C}" by (auto simp: rs_def)
  from props(2) out have le: "distance x \<le> distance y" by simp
  have low: "distance a \<le> distance b"
    if "a \<in> {x, y}" "b \<in> {A, B, C}" "b \<noteq> x" "b \<noteq> y" for a b
    using props(6) out d_set that by auto
  have "x \<noteq> C"
  proof
    assume x: "x = C"
    with mem(2) xy consider "y = A" | "y = B" by auto
    then show False
    proof cases
      case 1
      with x ne low [of x B] dB dC show ?thesis by auto
    next
      case 2
      with x ne low [of x A] dA dC show ?thesis by auto
    qed
  qed
  moreover have "y \<noteq> C"
  proof
    assume y: "y = C"
    with mem(1) xy consider "x = A" | "x = B" by auto
    then show False
    proof cases
      case 1
      with y ne low [of y B] dB dC show ?thesis by auto
    next
      case 2
      with y ne low [of y A] dA dC show ?thesis by auto
    qed
  qed
  ultimately have "x = B \<and> y = A"
    using mem xy le dA dB by auto
  with out have "out = [B, A]" by simp
  moreover have "merge_results srt psrt rs 2 = Inr out"
    using merge_results_eq_spec [OF psrt, of 2 srt rs] k
    by (simp add: std_unique_eq_spec out_def)
  ultimately show ?thesis by (simp add: rs_def A_def B_def C_def)
qed

lemma target_shards_bound: "sid \<in> set (target_shards st n) \<Longrightarrow> sid < n"
  by (cases st) auto

lemma fan_out_in_time:
  "\<exists>results d'. fan_out (\<lambda>j. True) eng query k n_probe d = Inr (results, d')"
proof -
  let ?n = "if n_probe = 0 \<or> n_probe > length (shards d) then length (shards d) else n_probe"
  have "?n \<le> length (shards d)" by simp
  then have "\<not> (\<exists>sid \<in> set (target_shards (strategy d) ?n). length (shards d) \<le> sid)"
    using target_shards_bound [of _ "strategy d" ?n] by fastforce
  then show ?thesis by (simp add: fan_out_def Let_def list_ex_iff)
qed

lemma fan_out_late:
  assumes "shards d \<noteq> []" "strategy d = HashSharding (length (shards d))" "\<not> in_time 0"
  shows "fan_out in_time eng query k n_probe d = Inl dangling_reference"
proof -
  let ?n = "if n_probe = 0 \<or> n_probe > length (shards d) then length (shards d) else n_probe"
  from assms(1) have "0 < ?n" by (auto simp: Let_def)
  with assms(1,2) have "0 < length (target_shards (strategy d) ?n)" by simp
  with assms(3) have "list_ex (\<lambda>j. \<not> in_time j) [0..<length (target_shards (strategy d) ?n)]"
    unfolding list_ex_iff by (intro bexI [of _ 0]) simp_all
  then show ?thesis by (simp add: fan_out_def Let_def)
qed

lemma sort_key_is_std_sort: "is_std_sort (sort_key key)"
proof -
  have "sorted_wrt (\<lambda>a b. \<not> key b < key a) (sort_key key xs)" for xs :: "result_t list"
    using sorted_sort_key [of key xs] by (simp add: sorted_map not_less)
  then show ?thesis by (simp add: is_std_sort_def)
qed

lemma sort_key_is_std_partial_sort: "is_std_partial_sort (\<lambda>n. sort_key distance)"
proof -
  have sorted: "sorted_wrt (\<lambda>a b. distance a \<le> distance b) (sort_key distance xs)"
    for xs :: "result_t list"
    using sorted_sort_key [of distance xs] by (simp add: sorted_map)
  have "sorted_wrt (\<lambda>a b. distance a \<le> distance b)
          (take n (sort_key distance xs) @ drop n (sort_key distance xs))"
    for n and xs :: "result_t list"
    using sorted [of xs] by simp
  then have split: "sorted_wrt (\<lambda>a b. distance a \<le> distance b) (take n (sort_key distance xs)) \<and>
      (\<forall>a \<in> set (take n (sort_key distance xs)). \<forall>b \<in> set (drop n (sort_key distance xs)).
         distance a \<le> distance b)"
    for n and xs :: "result_t list"
    unfolding sorted_wrt_append by blast
  show ?thesis
    unfolding is_std_partial_sort_def using split by (simp add: not_less)
qed

text \<open>
  The merge itself, whatever \<^verbatim>\<open>std::sort\<close> and \<^verbatim>\<open>std::partial_sort\<close> do within their
  contracts: when the tasks have delivered their results and the
  deduplicated list has at least \<open>k\<close> entries, \<^verbatim>\<open>search\<close> returns the merge of the
  specification applied to the per-shard results (concatenate, sort by key, drop adjacent
  entries of equal key keeping the first, partially sort by distance, truncate to \<open>k\<close>);
  the result has \<open>k\<close> entries of distinct keys, ascending by distance, all taken from the
  shards' results, and no deduplicated entry left out is closer than one returned. For the
  shard results \<open>[(k1, 1.0), (k2, 0.5)]\<close> and \<open>[(k2, 0.5), (k3, 2.0)]\<close> with distinct keys
  and \<open>k = 2\<close> the result is \<open>[(k2, 0.5), (k1, 1.0)]\<close>.
\<close>

lemma search_merge_refines_spec:
  assumes "is_std_sort srt" and "is_std_partial_sort psrt"
    and "fan_out in_time eng query k n_probe d = Inr (results, d')"
  shows "(k \<le> length (spec_dedup_adjacent (srt (concat results))) \<longrightarrow>
            DistributedIndex_search srt psrt in_time eng query k n_probe d
              = Inr (spec_merge srt psrt results k, d') \<and>
            length (spec_merge srt psrt results k) = k \<and>
            sorted_wrt (\<lambda>a b. distance a \<le> distance b) (spec_merge srt psrt results k) \<and>
            distinct (map key (spec_merge srt psrt results k)) \<and>
            set (spec_merge srt psrt results k) \<subseteq> set (concat results) \<and>
            key ` set (spec_dedup_adjacent (srt (concat results))) = key ` set (concat results) \<and>
            (\<forall>a \<in> set (spec_merge srt psrt results k).
               \<forall>b \<in> set (spec_dedup_adjacent (srt (concat results))).
                 b \<notin> set (spec_merge srt psrt results k) \<longrightarrow> distance a \<le> distance b)) \<and>
         (k = 2 \<and> distinct [k1, k2, k3] \<and>
          results = [[\<lparr>key = k1, distance = 1\<rparr>, \<lparr>key = k2, distance = 0.5\<rparr>],
                     [\<lparr>key = k2, distance = 0.5\<rparr>, \<lparr>key = k3, distance = 2\<rparr>]] \<longrightarrow>
            DistributedIndex_search srt psrt in_time eng query k n_probe d
              = Inr ([\<lparr>key = k2, distance = 0.5\<rparr>, \<lparr>key = k1, distance = 1\<rparr>], d'))"
proof (intro conjI impI)
  assume k: "k \<le> length (spec_dedup_adjacent (srt (concat results)))"
  note props = spec_merge_props [OF assms(1,2) k]
  from k have "merge_results srt psrt results k = Inr (spec_merge srt psrt results k)"
    using merge_results_eq_spec [OF assms(2), of k srt results]
    by (simp add: std_unique_eq_spec)
  with assms(3) show "DistributedIndex_search srt psrt in_time eng query k n_probe d
      = Inr (spec_merge srt psrt results k, d')"
    by (simp add: DistributedIndex_search_def)
  show "length (spec_merge srt psrt results k) = k" by (rule props(1))
  show "sorted_wrt (\<lambda>a b. distance a \<le> distance b) (spec_merge srt psrt results k)"
    by (rule props(2))
  show "distinct (map key (spec_merge srt psrt results k))" by (rule props(3))
  show "set (spec_merge srt psrt results k) \<subseteq> set (concat results)" by (rule props(4))
  show "key ` set (spec_dedup_adjacent (srt (concat results))) = key ` set (concat results)"
    by (rule props(5))
  show "\<forall>a \<in> set (spec_merge srt psrt results k).
          \<forall>b \<in> set (spec_dedup_adjacent (srt (concat results))).
            b \<notin> set (spec_merge srt psrt results k) \<longrightarrow> distance a \<le> distance b"
    by (rule props(6))
next
  assume ex: "k = 2 \<and> distinct [k1, k2, k3] \<and>
      results = [[\<lparr>key = k1, distance = 1\<rparr>, \<lparr>key = k2, distance = 0.5\<rparr>],
                 [\<lparr>key = k2, distance = 0.5\<rparr>, \<lparr>key = k3, distance = 2\<rparr>]]"
  then have "merge_results srt psrt results k
      = Inr [\<lparr>key = k2, distance = 0.5\<rparr>, \<lparr>key = k1, distance = 1\<rparr>]"
    using merge_example [OF assms(1,2), of k1 k2 k3] by simp
  with assms(3) show "DistributedIndex_search srt psrt in_time eng query k n_probe d
      = Inr ([\<lparr>key = k2, distance = 0.5\<rparr>, \<lparr>key = k1, distance = 1\<rparr>], d')"
    by (simp add: DistributedIndex_search_def)
qed

text \<open>
  C2. The claim says that for the shard results \<open>[(k1, 1.0), (k2, 0.5)]\<close> and
  \<open>[(k2, 0.5), (k3, 2.0)]\<close> with \<open>k = 2\<close> the output is \<open>[(k2, 0.5), (k1, 1.0)]\<close>. Two shards
  answer with these results (keys 1, 2, 3). When both tasks read \<^verbatim>\<open>shard_id\<close> in time, the
  call returns the claimed output. When the task of the first target reads \<^verbatim>\<open>shard_id\<close>
  after the first iteration of the loop has ended, it reads a variable that no longer
  exists: the behaviour of the call is undefined, and no output is promised.
\<close>

theorem search_reads_dead_loop_variable:
  "DistributedIndex_search (sort_key key) (\<lambda>n. sort_key distance) (\<lambda>j. 0 < j) stub_engine [] 2 0
       (stub_cluster 4 [[\<lparr>key = 1, distance = 1\<rparr>, \<lparr>key = 2, distance = 0.5\<rparr>],
                        [\<lparr>key = 2, distance = 0.5\<rparr>, \<lparr>key = 3, distance = 2\<rparr>]])
     = Inl dangling_reference \<and>
   DistributedIndex_search (sort_key key) (\<lambda>n. sort_key distance) (\<lambda>j. True) stub_engine [] 2 0
       (stub_cluster 4 [[\<lparr>key = 1, distance = 1\<rparr>, \<lparr>key = 2, distance = 0.5\<rparr>],
                        [\<lparr>key = 2, distance = 0.5\<rparr>, \<lparr>key = 3, distance = 2\<rparr>]])
     = Inr ([\<lparr>key = 2, distance = 0.5\<rparr>, \<lparr>key = 1, distance = 1\<rparr>],
            \<lparr>shards =
               [(stub_shard 0 4 [\<lparr>key = 1, distance = 1\<rparr>, \<lparr>key = 2, distance = 0.5\<rparr>])
                  \<lparr>query_count := 1\<rparr>,
                (stub_shard 1 4 [\<lparr>key = 2, distance = 0.5\<rparr>, \<lparr>key = 3, distance = 2\<rparr>])
                  \<lparr>query_count := 1\<rparr>],
             strategy = HashSharding 2, dimensions = 1, total_queries = 1\<rparr>)"
  by (simp add: DistributedIndex_search_def fan_out_def stub_cluster_def stub_shard_def
      stub_engine_def ShardNode_search_def Let_def merge_results_def upt_rec)

text \<open>
  C3. The claim says that a deduplicated union of fewer than \<open>k\<close> entries is returned as
  it is. One shard answers with one result and \<open>k = 2\<close>, the task reading \<^verbatim>\<open>shard_id\<close> in
  time: the deduplicated list has one entry, and the code calls \<^verbatim>\<open>std::partial_sort\<close> with
  \<^verbatim>\<open>begin() + 2\<close>, past the end of the vector. The behaviour of the call is undefined: the
  language promises no result, of any length.
\<close>

theorem search_fewer_than_k_undefined:
  "DistributedIndex_search (sort_key key) (\<lambda>n. sort_key distance) (\<lambda>j. True) stub_engine [] 2 0
     (stub_cluster 4 [[\<lparr>key = 1, distance = 0.5\<rparr>]]) = Inl invalid_iterator \<and>
   spec_dedup_adjacent (sort_key key (concat [[\<lparr>key = 1, distance = 0.5\<rparr>]]))
     = [\<lparr>key = 1, distance = 0.5\<rparr>]"
  by (simp add: DistributedIndex_search_def fan_out_def stub_cluster_def stub_shard_def
      stub_engine_def ShardNode_search_def Let_def merge_results_def spec_dedup_adjacent_def)

end
